theory Spec2Isabelle
  imports Complex_Main
begin

section \<open>GoLoad: the download registry, its handlers and the fetch goroutine\<close>

text \<open>
  The development follows \<^verbatim>\<open>src/main.go\<close>. The shared table \<^verbatim>\<open>downloads\<close> is a map from
  ids to records; every block of the source that runs between \<^verbatim>\<open>downloadsMu.Lock()\<close> and
  \<^verbatim>\<open>Unlock()\<close> is one atomic function on that table. Whatever the program only observes
  (the outcome of an HTTP request, of a file system call, of a clock reading, the order in
  which \<^verbatim>\<open>range\<close> visits a map) is an input of the model.
\<close>

subsection \<open>Machine numbers\<close>

text \<open>
  \<^verbatim>\<open>int64\<close> fields are integers, wrapped into the signed 64-bit range where the source
  adds to them.
\<close>

definition int64 :: "int \<Rightarrow> int" where
  "int64 x = (x + 2 ^ 63) mod 2 ^ 64 - 2 ^ 63"

text \<open>
  A \<^verbatim>\<open>float64\<close> is a sign with a magnitude, an infinity with its sign, or not-a-number.
  The magnitude of a number is the exact rational value of the double. Arithmetic
  rounds the exact result to the nearest double, ties to even (53 significant bits,
  exponents of the unit in the last place from -1074, overflow from \<open>2 ^ 1024\<close>).
\<close>

datatype float64 = Number bool rat | Infinity bool | NaN

definition pow2 :: "int \<Rightarrow> rat" where
  "pow2 e = (if 0 \<le> e then 2 ^ nat e else 1 / 2 ^ nat (- e))"

text \<open>The number of binary digits of a positive integer.\<close>

function bit_length :: "int \<Rightarrow> int" where
  "bit_length a = (if a \<le> 0 then 0 else bit_length (a div 2) + 1)"
  by pat_completeness auto
termination
  by (relation "measure nat") auto

declare bit_length.simps [simp del]

text \<open>The integer part of the binary logarithm of a positive rational.\<close>

definition ilog2 :: "rat \<Rightarrow> int" where
  "ilog2 q =
     (let (a, b) = quotient_of q;
          k = bit_length a - bit_length b
      in if pow2 k \<le> q then k else k - 1)"

definition round_half_even :: "rat \<Rightarrow> int" where
  "round_half_even q =
     (let f = \<lfloor>q\<rfloor>; d = q - of_int f
      in if d < 1 / 2 then f
         else if 1 / 2 < d then f + 1
         else if even f then f else f + 1)"

text \<open>Rounding a non-negative rational to a double's magnitude; \<open>None\<close> is overflow.\<close>

definition round_magnitude :: "rat \<Rightarrow> rat option" where
  "round_magnitude q =
     (if q = 0 then Some 0
      else let e = max (ilog2 q - 52) (- 1074);
               v = of_int (round_half_even (q / pow2 e)) * pow2 e
           in if pow2 1024 \<le> v then None else Some v)"

definition f64 :: "bool \<Rightarrow> rat \<Rightarrow> float64" where
  "f64 s q = (case round_magnitude q of None \<Rightarrow> Infinity s | Some m \<Rightarrow> Number s m)"

text \<open>\<^verbatim>\<open>float64(x)\<close> for an \<^verbatim>\<open>int64\<close> x.\<close>

definition float64_of_int64 :: "int \<Rightarrow> float64" where
  "float64_of_int64 x = f64 (x < 0) (of_int \<bar>x\<bar>)"

fun f64_div :: "float64 \<Rightarrow> float64 \<Rightarrow> float64" where
  "f64_div NaN y = NaN"
| "f64_div x NaN = NaN"
| "f64_div (Infinity s) (Infinity t) = NaN"
| "f64_div (Infinity s) (Number t k) = Infinity (s \<noteq> t)"
| "f64_div (Number s m) (Infinity t) = Number (s \<noteq> t) 0"
| "f64_div (Number s m) (Number t k) =
     (if k = 0 then (if m = 0 then NaN else Infinity (s \<noteq> t))
      else f64 (s \<noteq> t) (m / k))"

fun f64_mul :: "float64 \<Rightarrow> float64 \<Rightarrow> float64" where
  "f64_mul NaN y = NaN"
| "f64_mul x NaN = NaN"
| "f64_mul (Infinity s) (Infinity t) = Infinity (s \<noteq> t)"
| "f64_mul (Infinity s) (Number t k) = (if k = 0 then NaN else Infinity (s \<noteq> t))"
| "f64_mul (Number s m) (Infinity t) = (if m = 0 then NaN else Infinity (s \<noteq> t))"
| "f64_mul (Number s m) (Number t k) = f64 (s \<noteq> t) (m * k)"

text \<open>The comparison \<^verbatim>\<open>x > 0\<close>.\<close>

fun f64_positive :: "float64 \<Rightarrow> bool" where
  "f64_positive (Number s m) = (\<not> s \<and> 0 < m)"
| "f64_positive (Infinity s) = (\<not> s)"
| "f64_positive NaN = False"

text \<open>The comparison \<^verbatim>\<open>x < 0\<close>.\<close>

fun f64_negative :: "float64 \<Rightarrow> bool" where
  "f64_negative (Number s m) = (s \<and> 0 < m)"
| "f64_negative (Infinity s) = s"
| "f64_negative NaN = False"

fun f64_is_inf :: "float64 \<Rightarrow> bool" where
  "f64_is_inf (Infinity s) = True"
| "f64_is_inf x = False"

fun f64_is_nan :: "float64 \<Rightarrow> bool" where
  "f64_is_nan NaN = True"
| "f64_is_nan x = False"

text \<open>
  \<^verbatim>\<open>int64(x)\<close> for a \<^verbatim>\<open>float64\<close> x truncates toward zero. Go leaves the result to the
  implementation when the value does not fit; \<open>oob\<close> is what the platform gives then.
\<close>

fun int64_of_float64 :: "int \<Rightarrow> float64 \<Rightarrow> int" where
  "int64_of_float64 oob (Number s m) =
     (let t = (if s then - \<lfloor>m\<rfloor> else \<lfloor>m\<rfloor>)
      in if - (2 ^ 63) \<le> t \<and> t < 2 ^ 63 then t else oob)"
| "int64_of_float64 oob x = oob"

subsection \<open>The data model\<close>

text \<open>The struct \<^verbatim>\<open>Download\<close> (lines 19-29).\<close>

record Download =
  ID :: string
  URL :: string
  Filename :: string
  Filepath :: string
  Status :: string
  SizeCurrent :: int
  SizeTotal :: int
  Progress :: float64
  Speed :: int

text \<open>
  The composite literal of line 80: the fields it does not name take Go's zero values.
\<close>

definition new_download :: "string \<Rightarrow> string \<Rightarrow> Download" where
  "new_download i u =
     \<lparr>ID = i, URL = u, Filename = '''', Filepath = '''', Status = ''in_progress'',
      SizeCurrent = 0, SizeTotal = 0, Progress = Number False 0, Speed = 0\<rparr>"

type_synonym registry = "string \<rightharpoonup> Download"

text \<open>
  What \<^verbatim>\<open>os.Stat\<close> reports for a path: success, an error that \<^verbatim>\<open>os.IsNotExist\<close> accepts,
  or another error.
\<close>

datatype stat_result = StatOk | StatNotExist | StatOtherError

type_synonym filesystem = "string \<Rightarrow> stat_result"

record state =
  downloads :: registry
  files :: filesystem

text \<open>
  \<^verbatim>\<open>range downloads\<close> visits the keys of the map in an order the runtime chooses. A loop
  of the model takes that order as a list; it is an order of the map when it lists every
  key once.
\<close>

definition range_order :: "string list \<Rightarrow> registry \<Rightarrow> bool" where
  "range_order ks ds = (distinct ks \<and> set ks = dom ds)"

subsection \<open>Library functions and configuration\<close>

text \<open>
  The standard library functions the program calls, and the global \<^verbatim>\<open>downloadDir\<close> of
  line 34, are parameters: nothing is fixed about them. \<open>url_Parse_Path u\<close> is the
  \<^verbatim>\<open>Path\<close> of \<^verbatim>\<open>url.Parse(u)\<close>; \<open>url_QueryUnescape\<close> gives \<open>None\<close> where the library
  returns an error; \<open>int64_out_of_range\<close> is the platform's result of converting a
  \<^verbatim>\<open>float64\<close> that does not fit to \<^verbatim>\<open>int64\<close>.
\<close>

record platform =
  downloadDir :: string
  filepath_Join :: "string list \<Rightarrow> string"
  filepath_Ext :: "string \<Rightarrow> string"
  filepath_Base :: "string \<Rightarrow> string"
  mime_TypeByExtension :: "string \<Rightarrow> string"
  url_Parse_Path :: "string \<Rightarrow> string"
  url_QueryUnescape :: "string \<Rightarrow> string option"
  int64_out_of_range :: int

subsection \<open>What a goroutine observes\<close>

text \<open>
  One call of \<^verbatim>\<open>resp.Body.Read(buf)\<close> with what follows it in the loop body: the number
  of bytes read, the error returned with them, whether \<^verbatim>\<open>writer.Write\<close> of these bytes
  succeeds, and the value of \<^verbatim>\<open>time.Since(startTime).Seconds()\<close> read after the write.
\<close>

datatype read_error = NoError | EOF | ReadError

record read_event =
  read_n :: nat
  read_err :: read_error
  write_ok :: bool
  elapsed :: float64

text \<open>
  The fields of \<^verbatim>\<open>http.Response\<close> the program reads. \<open>ContentLength\<close> is the field of
  that name: the library sets it to the length the response declares and to -1 when the
  response declares none. The body is the sequence of its reads; a body whose reads run
  out without an error is one whose next read never returns.
\<close>

record response =
  ContentType :: string
  ContentLength :: int
  Body :: "read_event list"

definition declared_length :: "response \<Rightarrow> int option" where
  "declared_length resp = (if ContentLength resp = - 1 then None else Some (ContentLength resp))"

datatype get_result = GetError | GetResponse response

text \<open>The outcomes of the calls of one run of \<^verbatim>\<open>startDownload\<close>.\<close>

record outcomes =
  http_Get :: get_result
  mkdir_ok :: bool
  create_ok :: bool
  rename_ok :: bool

subsection \<open>The categorizer and the file name\<close>

text \<open>\<^verbatim>\<open>getFilename\<close> (lines 157-165); it does not read its response argument.\<close>

definition getFilename :: "platform \<Rightarrow> string \<Rightarrow> string" where
  "getFilename pf fileURL =
     (let filename = filepath_Base pf (url_Parse_Path pf fileURL)
      in case url_QueryUnescape pf filename of
           None \<Rightarrow> filename
         | Some decodedFilename \<Rightarrow> decodedFilename)"

text \<open>The value of the variable \<^verbatim>\<open>category\<close> at line 181 (lines 168-180).\<close>

definition category :: "platform \<Rightarrow> string \<Rightarrow> string \<Rightarrow> string" where
  "category pf filename mimeType0 =
     (let ext = filepath_Ext pf filename;
          mimeType = (if mimeType0 = '''' then mime_TypeByExtension pf ext else mimeType0)
      in if mimeType = ''video/mp4'' \<or> mimeType = ''video/x-matroska'' then ''videos''
         else if mimeType = ''audio/mpeg'' \<or> mimeType = ''audio/wav'' \<or> mimeType = ''audio/flac''
           then ''audio''
         else if mimeType = ''application/zip'' \<or> mimeType = ''application/x-rar-compressed''
           then ''compressed''
         else ''unknown'')"

subsection \<open>Atomic effects\<close>

text \<open>
  A goroutine running \<^verbatim>\<open>startDownload\<close> never reads the shared table to decide what to
  do next: given the outcomes of its calls, what it does to the table and to the file
  system is a fixed sequence of effects, each atomic (a block under \<^verbatim>\<open>downloadsMu\<close>, or
  one file system call). Other goroutines may run between two of them.
\<close>

datatype effect =
    MkdirAll string bool
  | Create string
  | PublishFile string string string int
  | PublishSpeed string int
  | PublishProgress string int float64
  | Rename string string bool
  | UpdateStatus string string

text \<open>\<^verbatim>\<open>updateStatus\<close> (lines 186-192).\<close>

definition updateStatus :: "string \<Rightarrow> string \<Rightarrow> registry \<Rightarrow> registry" where
  "updateStatus i status ds =
     (case ds i of None \<Rightarrow> ds | Some dl \<Rightarrow> ds(i \<mapsto> dl\<lparr>Status := status\<rparr>))"

text \<open>
  An assignment through \<^verbatim>\<open>downloads[id]\<close> where the map has no such key dereferences a
  nil pointer, and the program panics: the result is \<open>None\<close>.
\<close>

definition assign :: "string \<Rightarrow> (Download \<Rightarrow> Download) \<Rightarrow> registry \<Rightarrow> registry option" where
  "assign i f ds = (case ds i of None \<Rightarrow> None | Some dl \<Rightarrow> Some (ds(i \<mapsto> f dl)))"

fun exec :: "effect \<Rightarrow> 'a state_scheme \<Rightarrow> 'a state_scheme option" where
  "exec (MkdirAll dir ok) st =
     Some (if ok then st\<lparr>files := (files st)(dir := StatOk)\<rparr> else st)"
| "exec (Create path) st = Some (st\<lparr>files := (files st)(path := StatOk)\<rparr>)"
| "exec (PublishFile i filename finalPath sizeTotal) st =
     (case assign i (\<lambda>dl. dl\<lparr>Filename := filename, Filepath := finalPath,
                                SizeTotal := sizeTotal\<rparr>) (downloads st) of
        None \<Rightarrow> None | Some ds \<Rightarrow> Some (st\<lparr>downloads := ds\<rparr>))"
| "exec (PublishSpeed i speed) st =
     (case assign i (\<lambda>dl. dl\<lparr>Speed := speed\<rparr>) (downloads st) of
        None \<Rightarrow> None | Some ds \<Rightarrow> Some (st\<lparr>downloads := ds\<rparr>))"
| "exec (PublishProgress i sizeCurrent progress) st =
     (case assign i (\<lambda>dl. dl\<lparr>SizeCurrent := sizeCurrent, Progress := progress\<rparr>)
             (downloads st) of
        None \<Rightarrow> None | Some ds \<Rightarrow> Some (st\<lparr>downloads := ds\<rparr>))"
| "exec (Rename tempPath finalPath ok) st =
     Some (if ok then st\<lparr>files := (files st)(tempPath := StatNotExist, finalPath := StatOk)\<rparr>
           else st)"
| "exec (UpdateStatus i status) st =
     Some (st\<lparr>downloads := updateStatus i status (downloads st)\<rparr>)"

text \<open>A goroutine running alone: its effects one after the other, up to a panic.\<close>

fun run_effects :: "effect list \<Rightarrow> 'a state_scheme \<Rightarrow> 'a state_scheme option" where
  "run_effects [] st = Some st"
| "run_effects (e # es) st =
     (case exec e st of None \<Rightarrow> None | Some st' \<Rightarrow> run_effects es st')"

subsection \<open>The fetch goroutine\<close>

text \<open>
  \<^verbatim>\<open>getCategoryDir\<close> (lines 167-184): the directory, and the \<^verbatim>\<open>os.MkdirAll\<close> it performs,
  whose result it ignores.
\<close>

definition getCategoryDir :: "platform \<Rightarrow> bool \<Rightarrow> string \<Rightarrow> string \<Rightarrow> string \<times> effect list" where
  "getCategoryDir pf ok filename mimeType =
     (let dir = filepath_Join pf [downloadDir pf, category pf filename mimeType]
      in (dir, [MkdirAll dir ok]))"

text \<open>
  How the loop of lines 121-151 ends: by \<^verbatim>\<open>break\<close>, by \<^verbatim>\<open>return\<close>, or not at all.
\<close>

datatype loop_end = Break | Return | Blocked

text \<open>
  The loop of lines 121-151, from the value of \<^verbatim>\<open>sizeCurrent\<close> at the top of an
  iteration: the effects of the iterations, and how the loop ends.
\<close>

fun stream :: "platform \<Rightarrow> string \<Rightarrow> int \<Rightarrow> int \<Rightarrow> read_event list \<Rightarrow> effect list \<times> loop_end" where
  "stream pf i sizeTotal sizeCurrent [] = ([], Blocked)"
| "stream pf i sizeTotal sizeCurrent (r # rs) =
     (if 0 < read_n r then
        (if \<not> write_ok r then ([UpdateStatus i ''failed''], Return)
         else
           let sizeCurrent' = int64 (sizeCurrent + int (read_n r));
               duration = elapsed r;
               speed = (if f64_positive duration
                        then [PublishSpeed i (int64_of_float64 (int64_out_of_range pf)
                                (f64_div (float64_of_int64 sizeCurrent') duration))]
                        else []);
               progress = f64_mul (f64_div (float64_of_int64 sizeCurrent')
                                      (float64_of_int64 sizeTotal)) (Number False 100);
               published = speed @ [PublishProgress i sizeCurrent' progress]
           in if read_err r = EOF then (published, Break)
              else if read_err r \<noteq> NoError then (published @ [UpdateStatus i ''failed''], Return)
              else let (es, e) = stream pf i sizeTotal sizeCurrent' rs in (published @ es, e))
      else if read_err r = EOF then ([], Break)
      else if read_err r \<noteq> NoError then ([UpdateStatus i ''failed''], Return)
      else stream pf i sizeTotal sizeCurrent rs)"

text \<open>
  \<^verbatim>\<open>startDownload\<close> (lines 88-155): its effects, and whether it returns (\<open>True\<close>) or stays
  blocked in a read.
\<close>

definition startDownload :: "platform \<Rightarrow> outcomes \<Rightarrow> string \<Rightarrow> string \<Rightarrow> effect list \<times> bool" where
  "startDownload pf env i fileURL =
     (case http_Get env of
        GetError \<Rightarrow> ([UpdateStatus i ''failed''], True)
      | GetResponse resp \<Rightarrow>
          let filename = getFilename pf fileURL;
              (categoryDir, mk) = getCategoryDir pf (mkdir_ok env) filename (ContentType resp);
              tempPath = filepath_Join pf [downloadDir pf, ''temp'', filename @ ''.goloadtemp''];
              finalPath = filepath_Join pf [categoryDir, filename]
          in if \<not> create_ok env then (mk @ [UpdateStatus i ''failed''], True)
             else
               let sizeTotal = ContentLength resp;
                   (es, e) = stream pf i sizeTotal 0 (Body resp);
                   before = mk @ [Create tempPath, PublishFile i filename finalPath sizeTotal] @ es
               in case e of
                    Break \<Rightarrow> (before @ [Rename tempPath finalPath (rename_ok env),
                                        UpdateStatus i ''completed''], True)
                  | Return \<Rightarrow> (before, True)
                  | Blocked \<Rightarrow> (before, False))"

subsection \<open>The handlers\<close>

text \<open>
  \<^verbatim>\<open>cleanInvalidDownloads\<close> (lines 46-56), with the result of \<^verbatim>\<open>os.Stat\<close> for every path
  and the order in which \<^verbatim>\<open>range\<close> visits the keys. A key deleted before the loop
  reaches it is not visited.
\<close>

fun cleanInvalidDownloads :: "filesystem \<Rightarrow> string list \<Rightarrow> registry \<Rightarrow> registry" where
  "cleanInvalidDownloads fs [] ds = ds"
| "cleanInvalidDownloads fs (i # ks) ds =
     (case ds i of
        None \<Rightarrow> cleanInvalidDownloads fs ks ds
      | Some dl \<Rightarrow>
          if Filepath dl \<noteq> '''' \<and> Status dl = ''completed'' then
            if fs (Filepath dl) = StatNotExist
            then cleanInvalidDownloads fs ks (ds(i := None))
            else cleanInvalidDownloads fs ks ds
          else cleanInvalidDownloads fs ks ds)"

text \<open>
  The loop of lines 69-75 of \<^verbatim>\<open>addDownload\<close>: the \<^verbatim>\<open>ID\<close> field of the first record
  visited whose URL is the requested one.
\<close>

fun find_url :: "string \<Rightarrow> string list \<Rightarrow> registry \<Rightarrow> string option" where
  "find_url url [] ds = None"
| "find_url url (k # ks) ds =
     (case ds k of
        None \<Rightarrow> find_url url ks ds
      | Some dl \<Rightarrow> if URL dl = url then Some (ID dl) else find_url url ks ds)"

text \<open>The loop of lines 211-215 of \<^verbatim>\<open>clearFailed\<close>.\<close>

fun remove_failed :: "string list \<Rightarrow> registry \<Rightarrow> registry" where
  "remove_failed [] ds = ds"
| "remove_failed (i # ks) ds =
     (case ds i of
        None \<Rightarrow> remove_failed ks ds
      | Some dl \<Rightarrow>
          if Status dl = ''failed'' then remove_failed ks (ds(i := None))
          else remove_failed ks ds)"

text \<open>The loop of lines 199-202 of \<^verbatim>\<open>getDownloads\<close>: a copy of every record visited.\<close>

fun snapshot :: "string list \<Rightarrow> registry \<Rightarrow> Download list" where
  "snapshot [] ds = []"
| "snapshot (k # ks) ds =
     (case ds k of None \<Rightarrow> snapshot ks ds | Some dl \<Rightarrow> dl # snapshot ks ds)"

text \<open>\<^verbatim>\<open>fmt.Sprintf("%d", x)\<close>.\<close>

function digits :: "int \<Rightarrow> string" where
  "digits x =
     (if x < 10 then [''0123456789'' ! nat x]
      else digits (x div 10) @ [''0123456789'' ! nat (x mod 10)])"
  by pat_completeness auto
termination
  by (relation "measure nat") auto

declare digits.simps [simp del]

definition Sprintf_d :: "int \<Rightarrow> string" where
  "Sprintf_d x = (if x < 0 then CHR ''-'' # digits (- x) else digits x)"

text \<open>What a handler sends: the HTTP status and the JSON value.\<close>

datatype json =
    ErrorBody string
  | MessageId string string
  | Message string
  | Records "Download list"

datatype reply = Reply nat json

text \<open>
  \<^verbatim>\<open>addDownload\<close> (lines 58-86), run without another goroutine in between. \<open>ks1\<close> and
  \<open>ks2\<close> are the orders of its two loops, \<open>now\<close> is \<^verbatim>\<open>time.Now().UnixNano()\<close>, and \<open>req\<close> is
  the URL of the request, \<open>None\<close> when \<^verbatim>\<open>BindJSON\<close> fails. The result is the reply, the
  table, and the arguments of the goroutine started at line 83, if one is.
\<close>

definition addDownload ::
  "filesystem \<Rightarrow> string list \<Rightarrow> string list \<Rightarrow> int \<Rightarrow> string option \<Rightarrow> registry
    \<Rightarrow> reply \<times> registry \<times> (string \<times> string) option" where
  "addDownload fs ks1 ks2 now req ds =
     (let ds1 = cleanInvalidDownloads fs ks1 ds
      in case req of
           None \<Rightarrow> (Reply 400 (ErrorBody ''Invalid JSON''), ds1, None)
         | Some url \<Rightarrow>
             (case find_url url ks2 ds1 of
                Some i \<Rightarrow> (Reply 200 (MessageId ''Download already exists'' i), ds1, None)
              | None \<Rightarrow>
                  let i = Sprintf_d now
                  in (Reply 200 (MessageId ''Download started'' i),
                      ds1(i \<mapsto> new_download i url), Some (i, url))))"

text \<open>\<^verbatim>\<open>getDownloads\<close> (lines 194-204).\<close>

definition getDownloads ::
  "filesystem \<Rightarrow> string list \<Rightarrow> string list \<Rightarrow> registry \<Rightarrow> reply \<times> registry" where
  "getDownloads fs ks1 ks2 ds =
     (let ds1 = cleanInvalidDownloads fs ks1 ds
      in (Reply 200 (Records (snapshot ks2 ds1)), ds1))"

text \<open>\<^verbatim>\<open>clearFailed\<close> (lines 206-218).\<close>

definition clearFailed ::
  "filesystem \<Rightarrow> string list \<Rightarrow> string list \<Rightarrow> registry \<Rightarrow> reply \<times> registry" where
  "clearFailed fs ks1 ks2 ds =
     (let ds1 = cleanInvalidDownloads fs ks1 ds
      in (Reply 200 (Message ''Failed downloads cleared''), remove_failed ks2 ds1))"

subsection \<open>The running program\<close>

text \<open>
  The program is the shared table, the file system, and the goroutines started at line
  83, each with the id it was given and the effects it has yet to perform. It moves by
  one atomic block at a time: the sweep that every handler starts with, the removal loop
  of \<^verbatim>\<open>clearFailed\<close>, lines 78-83 of \<^verbatim>\<open>addDownload\<close> (an id from the clock, a new record
  under it, a new goroutine), the next effect of a goroutine, or a change of the files
  from outside. A submission reaches lines 78-83 when its URL check found nothing, and
  another submission may have stored a record since, so the block can run in any table.
  Blocks that only read the table leave the program where it is and are not listed.
  Any sequence of these blocks is allowed, so every interleaving of handlers and
  goroutines is covered.

  One thing is required of the environment: a \<^verbatim>\<open>range\<close> loop visits every key once.
  Nothing is required of the clock: line 80 stores the new record under the reading of
  line 78 whatever the table holds under that key, and so does the \<open>Insert\<close> block.
\<close>

record system = state +
  goroutines :: "(string \<times> effect list) list"

datatype event =
    Sweep "string list"
  | RemoveFailed "string list"
  | Insert int string outcomes
  | Advance nat
  | External filesystem

fun step :: "platform \<Rightarrow> event \<Rightarrow> system \<Rightarrow> system option" where
  "step pf (Sweep ks) s =
     (if range_order ks (downloads s)
      then Some (s\<lparr>downloads := cleanInvalidDownloads (files s) ks (downloads s)\<rparr>)
      else None)"
| "step pf (RemoveFailed ks) s =
     (if range_order ks (downloads s)
      then Some (s\<lparr>downloads := remove_failed ks (downloads s)\<rparr>)
      else None)"
| "step pf (Insert now url env) s =
     (let i = Sprintf_d now
      in Some (s\<lparr>downloads := (downloads s)(i \<mapsto> new_download i url),
                 goroutines := goroutines s @ [(i, fst (startDownload pf env i url))]\<rparr>))"
| "step pf (Advance k) s =
     (if k < length (goroutines s) then
        (case goroutines s ! k of
           (i, []) \<Rightarrow> None
         | (i, e # es) \<Rightarrow>
             (case exec e s of
                None \<Rightarrow> None
              | Some s' \<Rightarrow> Some (s'\<lparr>goroutines := (goroutines s)[k := (i, es)]\<rparr>)))
      else None)"
| "step pf (External fs) s = Some (s\<lparr>files := fs\<rparr>)"

fun run :: "platform \<Rightarrow> event list \<Rightarrow> system \<Rightarrow> system option" where
  "run pf [] s = Some s"
| "run pf (ev # evs) s = (case step pf ev s of None \<Rightarrow> None | Some s' \<Rightarrow> run pf evs s')"

text \<open>The program after \<^verbatim>\<open>init\<close>: an empty table, no goroutine, any files.\<close>

definition initial :: "filesystem \<Rightarrow> system" where
  "initial fs = \<lparr>downloads = Map.empty, files = fs, goroutines = []\<rparr>"

text \<open>
  A submission draws a new id when the clock reading of line 78 gives a string that is
  not a key of the table at the moment line 80 stores the record. The other blocks draw
  no id. A sequence of blocks draws new ids when each of its submissions does, in
  the program in which it runs.
\<close>

fun new_id :: "event \<Rightarrow> system \<Rightarrow> bool" where
  "new_id (Insert now url env) s = (downloads s (Sprintf_d now) = None)"
| "new_id (Sweep ks) s = True"
| "new_id (RemoveFailed ks) s = True"
| "new_id (Advance k) s = True"
| "new_id (External fs) s = True"

fun new_ids :: "platform \<Rightarrow> event list \<Rightarrow> system \<Rightarrow> bool" where
  "new_ids pf [] s = True"
| "new_ids pf (ev # evs) s =
     (new_id ev s \<and> (case step pf ev s of None \<Rightarrow> True | Some s' \<Rightarrow> new_ids pf evs s'))"

subsection \<open>Invariants of the table, and sample data\<close>

text \<open>
  A table is in order when every record is stored under its own \<^verbatim>\<open>ID\<close> and no two
  records have the same URL. Handlers that run one after the other keep it in order. Two
  submissions of one URL that interleave do not: the URL check (lines 68-76) and the
  insert (lines 79-81) are two critical sections, and both submissions can pass the
  check before either inserts.
\<close>

definition registry_ok :: "registry \<Rightarrow> bool" where
  "registry_ok ds =
     (\<forall>k dl. ds k = Some dl \<longrightarrow>
        ID dl = k \<and> (\<forall>k' dl'. ds k' = Some dl' \<longrightarrow> URL dl' = URL dl \<longrightarrow> k' = k))"

text \<open>Data for the worked examples.\<close>

definition no_files :: filesystem where
  "no_files = (\<lambda>path. StatNotExist)"

definition finished :: Download where
  "finished = \<lparr>ID = ''1'', URL = ''http://x/a.zip'', Filename = ''a.zip'',
      Filepath = ''/d/compressed/a.zip'', Status = ''completed'',
      SizeCurrent = 3, SizeTotal = 3, Progress = Number False 100, Speed = 0\<rparr>"

definition broken :: Download where
  "broken = (new_download ''2'' ''http://x/b'')\<lparr>Status := ''failed''\<rparr>"

definition table2 :: registry where
  "table2 = [''1'' \<mapsto> finished, ''2'' \<mapsto> broken]"

definition one_file :: filesystem where
  "one_file = no_files(''/d/compressed/a.zip'' := StatOk)"

definition table1 :: registry where
  "table1 = [''1'' \<mapsto> finished]"

text \<open>
  The paths of lines 97-99 of \<^verbatim>\<open>startDownload\<close>, as functions of the URL and of the
  content type of the response.
\<close>

definition categoryDir :: "platform \<Rightarrow> string \<Rightarrow> string \<Rightarrow> string" where
  "categoryDir pf fileURL mimeType =
     filepath_Join pf [downloadDir pf, category pf (getFilename pf fileURL) mimeType]"

definition tempPath :: "platform \<Rightarrow> string \<Rightarrow> string" where
  "tempPath pf fileURL =
     filepath_Join pf [downloadDir pf, ''temp'', getFilename pf fileURL @ ''.goloadtemp'']"

definition finalPath :: "platform \<Rightarrow> string \<Rightarrow> string \<Rightarrow> string" where
  "finalPath pf fileURL mimeType =
     filepath_Join pf [categoryDir pf fileURL mimeType, getFilename pf fileURL]"

text \<open>
  A platform for the examples: paths joined by a slash, and the answers of the library
  for the one URL the examples download.
\<close>

fun join_paths :: "string list \<Rightarrow> string" where
  "join_paths [] = ''''"
| "join_paths [p] = p"
| "join_paths (p # q # ps) = p @ ''/'' @ join_paths (q # ps)"

definition sample_platform :: platform where
  "sample_platform =
     \<lparr>downloadDir = ''/d'',
      filepath_Join = join_paths,
      filepath_Ext = (\<lambda>p. if p = ''a.zip'' then ''.zip'' else ''''),
      filepath_Base = (\<lambda>p. if p = ''/a.zip'' then ''a.zip'' else p),
      mime_TypeByExtension = (\<lambda>e. if e = ''.zip'' then ''application/zip'' else ''''),
      url_Parse_Path = (\<lambda>u. if u = ''http://x/a.zip'' then ''/a.zip'' else ''''),
      url_QueryUnescape = Some,
      int64_out_of_range = - (2 ^ 63)\<rparr>"

text \<open>A read of \<open>k\<close> bytes whose write succeeds, with no time elapsed on the clock.\<close>

definition sample_read :: "nat \<Rightarrow> read_error \<Rightarrow> read_event" where
  "sample_read k e = \<lparr>read_n = k, read_err = e, write_ok = True, elapsed = Number False 0\<rparr>"

text \<open>A response that declares three bytes and sends them in two reads.\<close>

definition three_bytes :: response where
  "three_bytes = \<lparr>ContentType = '''', ContentLength = 3,
                   Body = [sample_read 2 NoError, sample_read 1 EOF]\<rparr>"

text \<open>A response that declares no length and sends five bytes.\<close>

definition no_length :: response where
  "no_length = \<lparr>ContentType = '''', ContentLength = - 1, Body = [sample_read 5 EOF]\<rparr>"

definition unreachable :: outcomes where
  "unreachable = \<lparr>http_Get = GetError, mkdir_ok = True, create_ok = True, rename_ok = True\<rparr>"

definition answered :: "response \<Rightarrow> bool \<Rightarrow> outcomes" where
  "answered resp renamed =
     \<lparr>http_Get = GetResponse resp, mkdir_ok = True, create_ok = True, rename_ok = renamed\<rparr>"

text \<open>The program right after the URL has been submitted at clock reading 7.\<close>

definition started :: state where
  "started = \<lparr>downloads = [''7'' \<mapsto> new_download ''7'' ''http://x/a.zip''], files = no_files\<rparr>"

text \<open>
  The program when the loop of \<^verbatim>\<open>startDownload\<close> begins (after line 114), from the
  program \<open>st\<close> in which the goroutine started and the record \<open>dl\<close> it found: the category
  directory made if \<^verbatim>\<open>os.MkdirAll\<close> succeeded, the temporary file created, and the file
  name, the file path and the total size published.
\<close>

definition opened ::
  "platform \<Rightarrow> outcomes \<Rightarrow> response \<Rightarrow> string \<Rightarrow> string \<Rightarrow> Download
    \<Rightarrow> 'a state_scheme \<Rightarrow> 'a state_scheme" where
  "opened pf env resp i url dl st =
     st\<lparr>downloads := (downloads st)(i \<mapsto> dl\<lparr>Filename := getFilename pf url,
           Filepath := finalPath pf url (ContentType resp),
           SizeTotal := ContentLength resp\<rparr>),
        files := (if mkdir_ok env
                  then (files st)(categoryDir pf url (ContentType resp) := StatOk)
                  else files st)(tempPath pf url := StatOk)\<rparr>"

text \<open>
  What holds of the running program at every moment. The effects a goroutine has left
  concern its own id, and a status update can only be the last of them, to \<^verbatim>\<open>completed\<close>
  or \<^verbatim>\<open>failed\<close>.
\<close>

fun own_effects :: "string \<Rightarrow> effect list \<Rightarrow> bool" where
  "own_effects i [] = True"
| "own_effects i (UpdateStatus j s # es) =
     (j = i \<and> (s = ''completed'' \<or> s = ''failed'') \<and> es = [])"
| "own_effects i (PublishFile j a b c # es) = (j = i \<and> own_effects i es)"
| "own_effects i (PublishSpeed j a # es) = (j = i \<and> own_effects i es)"
| "own_effects i (PublishProgress j a b # es) = (j = i \<and> own_effects i es)"
| "own_effects i (e # es) = own_effects i es"

text \<open>
  Every status is one of the three; a goroutine that has effects left has its record in
  the table, in progress; and no two such goroutines have the same id.
\<close>

definition invariant :: "system \<Rightarrow> bool" where
  "invariant s =
     ((\<forall>k dl. downloads s k = Some dl \<longrightarrow>
         Status dl = ''in_progress'' \<or> Status dl = ''completed'' \<or> Status dl = ''failed'') \<and>
      (\<forall>a < length (goroutines s).
         own_effects (fst (goroutines s ! a)) (snd (goroutines s ! a)) \<and>
         (snd (goroutines s ! a) \<noteq> [] \<longrightarrow>
            (\<exists>dl. downloads s (fst (goroutines s ! a)) = Some dl \<and>
                  Status dl = ''in_progress''))) \<and>
      (\<forall>a b. a < length (goroutines s) \<and> b < length (goroutines s) \<and> a \<noteq> b \<and>
             snd (goroutines s ! a) \<noteq> [] \<and> snd (goroutines s ! b) \<noteq> [] \<longrightarrow>
             fst (goroutines s ! a) \<noteq> fst (goroutines s ! b)))"

text \<open>
  The running program after the URL has been submitted at clock reading 7 to a host that
  cannot be reached, and after its goroutine has run.
\<close>

definition one_running :: system where
  "one_running =
     \<lparr>downloads = [''7'' \<mapsto> new_download ''7'' ''http://x/a.zip''], files = no_files,
      goroutines = [(''7'', [UpdateStatus ''7'' ''failed''])]\<rparr>"

definition one_failed :: system where
  "one_failed =
     \<lparr>downloads = [''7'' \<mapsto> (new_download ''7'' ''http://x/a.zip'')\<lparr>Status := ''failed''\<rparr>],
      files = no_files, goroutines = [(''7'', [])]\<rparr>"

text \<open>A response that declares no bytes and sends none.\<close>

definition empty_file :: response where
  "empty_file = \<lparr>ContentType = '''', ContentLength = 0, Body = [sample_read 0 EOF]\<rparr>"

text \<open>
  Two submissions at the same clock reading 7: the first to a host that cannot be
  reached, the second answered with an empty file. The second record has replaced the
  first under the key, and both goroutines write to it. Here the first goroutine has
  failed, and the second has renamed its file and is about to report.
\<close>

definition same_reading :: "event list" where
  "same_reading =
     [Insert 7 ''http://x/b'' unreachable,
      Insert 7 ''http://x/a.zip'' (answered empty_file True),
      Advance 0, Advance 1, Advance 1, Advance 1, Advance 1]"

definition shared_failed :: system where
  "shared_failed =
     \<lparr>downloads = [''7'' \<mapsto> (new_download ''7'' ''http://x/a.zip'')
                       \<lparr>Filename := ''a.zip'', Filepath := ''/d/compressed/a.zip'',
                        Status := ''failed''\<rparr>],
      files = no_files(''/d/compressed'' := StatOk,
                       ''/d/temp/a.zip.goloadtemp'' := StatNotExist,
                       ''/d/compressed/a.zip'' := StatOk),
      goroutines = [(''7'', []), (''7'', [UpdateStatus ''7'' ''completed''])]\<rparr>"

text \<open>
  Two submissions of one URL at the clock readings 7 and 8, each of which made its URL
  check (lines 68-76) before the other stored its record (lines 79-81).
\<close>

definition two_records :: system where
  "two_records =
     \<lparr>downloads = [''7'' \<mapsto> new_download ''7'' ''http://x/b'',
                   ''8'' \<mapsto> new_download ''8'' ''http://x/b''],
      files = no_files,
      goroutines = [(''7'', [UpdateStatus ''7'' ''failed'']),
                    (''8'', [UpdateStatus ''8'' ''failed''])]\<rparr>"

text \<open>A table in which every record is stored under its own \<^verbatim>\<open>ID\<close>.\<close>

definition keyed :: "registry \<Rightarrow> bool" where
  "keyed ds = (\<forall>k dl. ds k = Some dl \<longrightarrow> ID dl = k)"

subsection \<open>The loops, key by key\<close>

lemma cleanInvalidDownloads_apply:
  "cleanInvalidDownloads fs ks ds k =
     (if k \<in> set ks
      then (case ds k of None \<Rightarrow> None
            | Some dl \<Rightarrow> if Status dl = ''completed'' \<and> Filepath dl \<noteq> '''' \<and> fs (Filepath dl) = StatNotExist then None else Some dl)
      else ds k)"
proof (induction ks arbitrary: ds k)
  case Nil
  then show ?case by simp
next
  case (Cons i ks)
  show ?case
    by (simp add: Cons.IH split: option.split)
qed

lemma remove_failed_apply:
  "remove_failed ks ds k =
     (if k \<in> set ks
      then (case ds k of None \<Rightarrow> None
            | Some dl \<Rightarrow> if Status dl = ''failed'' then None else Some dl)
      else ds k)"
proof (induction ks arbitrary: ds k)
  case Nil
  then show ?case by simp
next
  case (Cons i ks)
  show ?case
    by (simp add: Cons.IH split: option.split)
qed

lemma snapshot_range: "set ks \<subseteq> dom ds \<Longrightarrow> map Some (snapshot ks ds) = map ds ks"
  by (induction ks) (auto split: option.splits)

lemma find_url_None: "find_url u ks ds = None \<longleftrightarrow> (\<forall>k \<in> set ks. \<forall>dl. ds k = Some dl \<longrightarrow> URL dl \<noteq> u)"
  by (induction ks) (auto split: option.splits)

lemma find_url_Some: "find_url u ks ds = Some i \<Longrightarrow> \<exists>k \<in> set ks. \<exists>dl. ds k = Some dl \<and> URL dl = u \<and> ID dl = i"
  by (induction ks) (auto split: option.splits if_splits)

lemma Sprintf_d_7: "Sprintf_d 7 = ''7''"
  by (simp add: Sprintf_d_def digits.simps)

text \<open>The sample table, swept and cleared where no file exists.\<close>

lemma table2_order: "range_order [''1'', ''2''] table2"
  by (auto simp: range_order_def table2_def)

lemma table2_swept:
  "cleanInvalidDownloads no_files [''1'', ''2''] table2 = [''2'' \<mapsto> broken]"
  by (rule ext) (simp add: table2_def finished_def broken_def new_download_def no_files_def)

lemma table2_swept_order:
  "range_order [''2''] (cleanInvalidDownloads no_files [''1'', ''2''] table2)"
  unfolding table2_swept by (simp add: range_order_def)

lemma table2_cleared:
  "snd (clearFailed no_files [''1'', ''2''] [''2''] table2) = Map.empty"
  unfolding clearFailed_def Let_def table2_swept
  by (rule ext) (simp add: broken_def new_download_def)

lemma table2_kept: "cleanInvalidDownloads one_file [''1'', ''2''] table2 = table2"
  by (rule ext)
     (simp add: table2_def finished_def broken_def new_download_def one_file_def no_files_def)

lemma table2_kept_order:
  "range_order [''1'', ''2''] (cleanInvalidDownloads one_file [''1'', ''2''] table2)"
  unfolding table2_kept by (rule table2_order)

subsection \<open>The table stays in order\<close>


lemma cleanInvalidDownloads_sub:
  "cleanInvalidDownloads fs ks ds k = Some dl \<Longrightarrow> ds k = Some dl"
  by (auto simp: cleanInvalidDownloads_apply split: if_splits option.splits)

lemma remove_failed_sub:
  "remove_failed ks ds k = Some dl \<Longrightarrow> ds k = Some dl"
  by (auto simp: remove_failed_apply split: if_splits option.splits)

lemma registry_ok_sub:
  assumes "registry_ok ds" and "\<And>k dl. ds' k = Some dl \<Longrightarrow> ds k = Some dl"
  shows "registry_ok ds'"
  using assms unfolding registry_ok_def by blast

lemma registry_ok_sweep: "registry_ok ds \<Longrightarrow> registry_ok (cleanInvalidDownloads fs ks ds)"
  by (erule registry_ok_sub) (rule cleanInvalidDownloads_sub)

lemma registry_ok_remove_failed: "registry_ok ds \<Longrightarrow> registry_ok (remove_failed ks ds)"
  by (erule registry_ok_sub) (rule remove_failed_sub)

lemma registry_ok_insert:
  assumes "registry_ok ds" and "\<And>k dl. ds k = Some dl \<Longrightarrow> URL dl \<noteq> u"
  shows "registry_ok (ds(i \<mapsto> new_download i u))"
proof -
  have new: "ID (new_download i u) = i" "URL (new_download i u) = u"
    by (simp_all add: new_download_def)
  show ?thesis
    unfolding registry_ok_def
  proof (intro allI impI)
    fix k dl
    assume k: "(ds(i \<mapsto> new_download i u)) k = Some dl"
    show "ID dl = k \<and>
          (\<forall>k' dl'. (ds(i \<mapsto> new_download i u)) k' = Some dl' \<longrightarrow> URL dl' = URL dl \<longrightarrow> k' = k)"
    proof (cases "k = i")
      case True
      then have dl: "dl = new_download i u" using k by simp
      show ?thesis
        using True dl new assms(2) by (auto split: if_splits)
    next
      case False
      then have old: "ds k = Some dl" using k by simp
      then have "ID dl = k" and uniq: "\<And>k' dl'. ds k' = Some dl' \<Longrightarrow> URL dl' = URL dl \<Longrightarrow> k' = k"
        using assms(1) unfolding registry_ok_def by blast+
      moreover have "URL dl \<noteq> u" using assms(2) old by blast
      ultimately show ?thesis
        using new by (auto split: if_splits)
    qed
  qed
qed

text \<open>Handlers that run one after the other keep the table in order.\<close>

lemma registry_ok_addDownload:
  assumes "registry_ok ds" and "range_order ks2 (cleanInvalidDownloads fs ks1 ds)"
  shows "registry_ok (fst (snd (addDownload fs ks1 ks2 now req ds)))"
proof -
  let ?ds1 = "cleanInvalidDownloads fs ks1 ds"
  have ok1: "registry_ok ?ds1" using assms(1) by (rule registry_ok_sweep)
  have dom2: "set ks2 = dom ?ds1" using assms(2) by (simp add: range_order_def)
  show ?thesis
  proof (cases req)
    case None
    then show ?thesis using ok1 by (simp add: addDownload_def)
  next
    case (Some u)
    show ?thesis
    proof (cases "find_url u ks2 ?ds1")
      case None
      then have "\<And>k dl. ?ds1 k = Some dl \<Longrightarrow> URL dl \<noteq> u"
        using dom2 by (auto simp: find_url_None dom_def)
      then have "registry_ok (?ds1(Sprintf_d now \<mapsto> new_download (Sprintf_d now) u))"
        using ok1 by (rule registry_ok_insert [rotated])
      then show ?thesis using Some None by (simp add: addDownload_def Let_def)
    next
      case (Some i)
      then show ?thesis using \<open>req = Some u\<close> ok1 by (simp add: addDownload_def)
    qed
  qed
qed

lemma registry_ok_clearFailed:
  "registry_ok ds \<Longrightarrow> registry_ok (snd (clearFailed fs ks1 ks2 ds))"
  by (simp add: clearFailed_def Let_def registry_ok_remove_failed registry_ok_sweep)

lemma registry_ok_getDownloads:
  "registry_ok ds \<Longrightarrow> registry_ok (snd (getDownloads fs ks1 ks2 ds))"
  by (simp add: getDownloads_def Let_def registry_ok_sweep)

lemma registry_ok_assign:
  assumes "registry_ok ds" and "assign i f ds = Some ds'"
    and "\<And>dl. ID (f dl) = ID dl \<and> URL (f dl) = URL dl"
  shows "registry_ok ds'"
proof -
  obtain dl0 where dl0: "ds i = Some dl0" and ds': "ds' = ds(i \<mapsto> f dl0)"
    using assms(2) by (auto simp: assign_def split: option.splits)
  have same: "\<exists>dl0. ds k = Some dl0 \<and> ID dl = ID dl0 \<and> URL dl = URL dl0"
    if "ds' k = Some dl" for k dl
    using that dl0 assms(3) by (auto simp: ds' split: if_splits)
  show ?thesis
    unfolding registry_ok_def
  proof (intro allI impI conjI)
    fix k dl assume k: "ds' k = Some dl"
    then obtain d where d: "ds k = Some d" "ID dl = ID d" "URL dl = URL d"
      using same by blast
    show "ID dl = k" using d assms(1) unfolding registry_ok_def by metis
    fix k' dl' assume k': "ds' k' = Some dl'" and u: "URL dl' = URL dl"
    obtain d' where d': "ds k' = Some d'" "ID dl' = ID d'" "URL dl' = URL d'"
      using same k' by blast
    show "k' = k" using d d' u assms(1) unfolding registry_ok_def by metis
  qed
qed

lemma updateStatus_assign:
  "updateStatus i s ds = (case assign i (\<lambda>dl. dl\<lparr>Status := s\<rparr>) ds of None \<Rightarrow> ds | Some ds' \<Rightarrow> ds')"
  by (simp add: updateStatus_def assign_def split: option.splits)

lemma registry_ok_exec:
  assumes "registry_ok (downloads st)" and "exec e st = Some st'"
  shows "registry_ok (downloads st')"
proof (cases e)
  case (UpdateStatus i s)
  show ?thesis
  proof (cases "assign i (\<lambda>dl. dl\<lparr>Status := s\<rparr>) (downloads st)")
    case None
    then show ?thesis using assms UpdateStatus by (auto simp: updateStatus_assign)
  next
    case (Some ds')
    have "registry_ok ds'" using assms(1) Some by (rule registry_ok_assign) simp
    then show ?thesis using assms(2) UpdateStatus Some by (auto simp: updateStatus_assign)
  qed
next
  case (PublishFile i a b c)
  then obtain ds' where a: "assign i (\<lambda>dl. dl\<lparr>Filename := a, Filepath := b, SizeTotal := c\<rparr>) (downloads st) = Some ds'"
    and st': "st' = st\<lparr>downloads := ds'\<rparr>"
    using assms(2) by (auto split: option.splits)
  have "registry_ok ds'" using assms(1) a by (rule registry_ok_assign) simp
  then show ?thesis by (simp add: st')
next
  case (PublishSpeed i a)
  then obtain ds' where a: "assign i (\<lambda>dl. dl\<lparr>Speed := a\<rparr>) (downloads st) = Some ds'"
    and st': "st' = st\<lparr>downloads := ds'\<rparr>"
    using assms(2) by (auto split: option.splits)
  have "registry_ok ds'" using assms(1) a by (rule registry_ok_assign) simp
  then show ?thesis by (simp add: st')
next
  case (PublishProgress i a b)
  then obtain ds' where a: "assign i (\<lambda>dl. dl\<lparr>SizeCurrent := a, Progress := b\<rparr>) (downloads st) = Some ds'"
    and st': "st' = st\<lparr>downloads := ds'\<rparr>"
    using assms(2) by (auto split: option.splits)
  have "registry_ok ds'" using assms(1) a by (rule registry_ok_assign) simp
  then show ?thesis by (simp add: st')
qed (use assms in \<open>auto split: if_splits\<close>)

text \<open>The sample table of one record, and what a first submission leaves.\<close>


lemma table1_order: "range_order [''1''] table1"
  by (auto simp: range_order_def table1_def)

lemma table1_swept: "cleanInvalidDownloads no_files [''1''] table1 = Map.empty"
  by (rule ext) (simp add: table1_def finished_def no_files_def)

lemma table1_swept_order: "range_order [] (cleanInvalidDownloads no_files [''1''] table1)"
  unfolding table1_swept by (simp add: range_order_def)

lemma table1_kept: "cleanInvalidDownloads one_file [''1''] table1 = table1"
  by (rule ext) (simp add: table1_def finished_def one_file_def no_files_def)

lemma table1_kept_order: "range_order [''1''] (cleanInvalidDownloads one_file [''1''] table1)"
  unfolding table1_kept by (rule table1_order)

lemma table1_ok: "registry_ok table1"
  by (simp add: registry_ok_def table1_def finished_def)

lemma table1_resubmit:
  "addDownload no_files [''1''] [] 7 (Some ''http://x/a.zip'') table1 =
     (Reply 200 (MessageId ''Download started'' ''7''),
      [''7'' \<mapsto> new_download ''7'' ''http://x/a.zip''], Some (''7'', ''http://x/a.zip''))"
  unfolding addDownload_def Let_def table1_swept by (simp add: Sprintf_d_7)

lemma addDownload_started:
  assumes "addDownload fs ks1 ks2 now (Some url) ds = (Reply c (MessageId ''Download started'' i), ds', sp)"
  shows "ds' i = Some (new_download i url) \<and> sp = Some (i, url) \<and> i = Sprintf_d now"
  using assms by (auto simp: addDownload_def Let_def split: option.splits)

subsection \<open>Rounding\<close>


lemma pow2_powi: "pow2 e = 2 powi e"
  by (simp add: pow2_def power_int_def inverse_eq_divide power_one_over)

lemma pow2_pos: "0 < pow2 e"
  by (simp add: pow2_powi)

lemma pow2_add: "pow2 (a + b) = pow2 a * pow2 b"
  by (simp add: pow2_powi power_int_add)

lemma pow2_mono: "a \<le> b \<Longrightarrow> pow2 a \<le> pow2 b"
  by (simp add: pow2_powi power_int_increasing)

lemma pow2_nat: "0 \<le> e \<Longrightarrow> pow2 e = of_int (2 ^ nat e)"
  by (simp add: pow2_def)

lemma bit_length_bounds:
  "0 < a \<Longrightarrow> 1 \<le> bit_length a \<and> 2 ^ nat (bit_length a - 1) \<le> a \<and> a < 2 ^ nat (bit_length a)"
proof (induction a rule: bit_length.induct)
  case (1 a)
  show ?case
  proof (cases "a = 1")
    case True
    then show ?thesis by (simp add: bit_length.simps [of 1] bit_length.simps [of 0])
  next
    case False
    with 1 have pos: "0 < a div 2" by simp
    with 1 have ih: "1 \<le> bit_length (a div 2)"
      "2 ^ nat (bit_length (a div 2) - 1) \<le> a div 2" "a div 2 < 2 ^ nat (bit_length (a div 2))"
      by simp_all
    have bl: "bit_length a = bit_length (a div 2) + 1"
      using 1(2) by (simp add: bit_length.simps [of a])
    have n: "nat (bit_length (a div 2)) = Suc (nat (bit_length (a div 2) - 1))"
      using ih(1) by simp
    have lo: "2 ^ nat (bit_length a - 1) \<le> a"
      using ih(2) by (simp add: bl n)
    have "nat (bit_length a) = Suc (nat (bit_length (a div 2)))"
      using ih(1) by (simp add: bl nat_add_distrib)
    then have hi: "a < 2 ^ nat (bit_length a)"
      using ih(3) by simp
    show ?thesis using ih(1) lo hi by (simp add: bl)
  qed
qed

lemma ilog2_of_int:
  assumes "0 < n"
  shows "ilog2 (of_int n) = bit_length n - 1"
proof -
  have b: "1 \<le> bit_length n" "2 ^ nat (bit_length n - 1) \<le> n"
    using bit_length_bounds [OF assms] by simp_all
  have one: "bit_length 1 = 1"
    by (simp add: bit_length.simps [of 1] bit_length.simps [of 0])
  have "pow2 (bit_length n - 1) = of_int (2 ^ nat (bit_length n - 1))"
    using b(1) by (simp add: pow2_nat)
  also have "\<dots> \<le> of_int n"
    using b(2) by (simp only: of_int_le_iff)
  finally show ?thesis
    by (simp add: ilog2_def one)
qed

lemma round_half_even_bounds: "\<lfloor>q\<rfloor> \<le> round_half_even q \<and> round_half_even q \<le> \<lfloor>q\<rfloor> + 1"
  by (simp add: round_half_even_def Let_def)

lemma round_half_even_of_int: "round_half_even (of_int z) = z"
  by (simp add: round_half_even_def Let_def)

text \<open>
  Converting a positive integer below \<open>2 ^ 64\<close> gives a positive number: neither zero nor
  an infinity.
\<close>

lemma round_magnitude_of_int:
  assumes "0 < n" and "n < 2 ^ 64"
  shows "\<exists>m. round_magnitude (of_int n) = Some m \<and> 0 < m"
proof -
  define k where "k = bit_length n - 1"
  have b: "0 \<le> k" "2 ^ nat k \<le> n" "n < 2 ^ nat (k + 1)"
    using bit_length_bounds [OF assms(1)] by (simp_all add: k_def)
  have "(2::int) ^ nat k < 2 ^ 64" using b(2) assms(2) by linarith
  then have "nat k < 64"
    by (intro power_less_imp_less_exp [of 2 "nat k" 64]) simp_all
  then have k64: "k < 64" by simp
  define e where "e = k - 52"
  define x :: rat where "x = of_int n / pow2 e"
  have e: "max (ilog2 (of_int n) - 52) (- 1074) = e"
    using b(1) by (simp add: ilog2_of_int [OF assms(1)] k_def e_def)
  have x: "x = of_int n * pow2 (- e)"
    using pow2_add [of e "- e"] pow2_pos [of e] by (simp add: x_def pow2_def field_simps)
  have lo: "pow2 k \<le> of_int n"
  proof -
    have "pow2 k = of_int (2 ^ nat k)" using b(1) by (simp add: pow2_nat)
    also have "\<dots> \<le> of_int n" using b(2) by (simp only: of_int_le_iff)
    finally show ?thesis .
  qed
  have "pow2 52 = pow2 k * pow2 (- e)"
    using pow2_add [of k "- e"] by (simp add: e_def)
  also have "\<dots> \<le> x"
    unfolding x using lo pow2_pos [of "- e"] by (simp add: mult_right_mono)
  finally have x52: "pow2 52 \<le> x" .
  have hi: "of_int n \<le> pow2 (k + 1)"
  proof -
    have "(of_int n :: rat) \<le> of_int (2 ^ nat (k + 1))" using b(3) by (simp only: of_int_le_iff)
    then show ?thesis using b(1) by (simp add: pow2_nat)
  qed
  have "x \<le> pow2 (k + 1) * pow2 (- e)"
    unfolding x using hi pow2_pos [of "- e"] by (simp add: mult_right_mono)
  also have "\<dots> = pow2 53"
    using pow2_add [of "k + 1" "- e"] by (simp add: e_def)
  finally have x53: "x \<le> pow2 53" .
  define m where "m = round_half_even x"
  have "(2::int) ^ 52 \<le> \<lfloor>x\<rfloor>"
    using x52 by (simp add: pow2_def le_floor_iff)
  then have m_lo: "2 ^ 52 \<le> m"
    using round_half_even_bounds [of x] unfolding m_def by linarith
  have "\<lfloor>x\<rfloor> \<le> 2 ^ 53"
    using x53 floor_mono [of x "pow2 53"] by (simp add: pow2_def)
  have m_hi: "m \<le> 2 ^ 53"
  proof (cases "x = pow2 53")
    case True
    then have "x = of_int (2 ^ 53)" by (simp add: pow2_def)
    then show ?thesis unfolding m_def by (simp only: round_half_even_of_int)
  next
    case False
    then have "x < of_int (2 ^ 53)" using x53 by (simp add: pow2_def)
    then have "\<lfloor>x\<rfloor> < 2 ^ 53" by (simp only: floor_less_iff)
    then show ?thesis using round_half_even_bounds [of x] unfolding m_def by linarith
  qed
  define v :: rat where "v = of_int m * pow2 e"
  have v_pos: "0 < v"
    using m_lo pow2_pos [of e] by (simp add: v_def)
  have "v \<le> of_int (2 ^ 53) * pow2 e"
    unfolding v_def using m_hi pow2_pos [of e]
    by (intro mult_right_mono) (simp_all only: of_int_le_iff less_imp_le)
  also have "\<dots> = pow2 (k + 1)"
    using pow2_add [of 53 e] by (simp add: e_def pow2_nat add.commute)
  also have "\<dots> \<le> pow2 64"
    using k64 by (intro pow2_mono) simp
  also have "\<dots> < pow2 1024"
    by (simp add: pow2_def)
  finally have v_fin: "\<not> pow2 1024 \<le> v" by simp
  have "round_magnitude (of_int n) = Some v"
    using assms(1) v_fin unfolding round_magnitude_def e Let_def
    by (simp add: v_def m_def x_def)
  then show ?thesis using v_pos by blast
qed

text \<open>An integer of at most 53 bits is a double: rounding leaves it as it is.\<close>

lemma round_magnitude_exact:
  assumes "0 < n" and "n < 2 ^ 53"
  shows "round_magnitude (of_int n) = Some (of_int n)"
proof -
  define k where "k = bit_length n - 1"
  have b: "0 \<le> k" "2 ^ nat k \<le> n"
    using bit_length_bounds [OF assms(1)] by (simp_all add: k_def)
  have "(2::int) ^ nat k < 2 ^ 53" using b(2) assms(2) by linarith
  then have "nat k < 53"
    by (intro power_less_imp_less_exp [of 2 "nat k" 53]) simp_all
  then have k53: "k < 53" by simp
  define e where "e = k - 52"
  have e: "max (ilog2 (of_int n) - 52) (- 1074) = e"
    using b(1) by (simp add: ilog2_of_int [OF assms(1)] k_def e_def)
  have e0: "e \<le> 0" using k53 by (simp add: e_def)
  have inv: "pow2 e * pow2 (- e) = 1"
    using pow2_add [of e "- e"] by (simp add: pow2_def)
  have x: "of_int n / pow2 e = of_int (n * 2 ^ nat (- e))"
  proof -
    have "of_int n / pow2 e = of_int n * pow2 (- e)"
      using inv pow2_pos [of e] by (simp add: field_simps)
    also have "\<dots> = of_int (n * 2 ^ nat (- e))"
      using e0 by (simp add: pow2_nat)
    finally show ?thesis .
  qed
  have v: "of_int (round_half_even (of_int n / pow2 e)) * pow2 e = (of_int n :: rat)"
  proof -
    have "of_int (round_half_even (of_int n / pow2 e)) * pow2 e
          = (of_int n * pow2 (- e)) * pow2 e"
      using e0 unfolding x round_half_even_of_int by (simp add: pow2_nat)
    also have "\<dots> = of_int n"
      using inv by (simp add: mult.assoc mult.commute)
    finally show ?thesis .
  qed
  have "(of_int n :: rat) < of_int (2 ^ 53)"
    using assms(2) by (simp only: of_int_less_iff)
  also have "\<dots> < pow2 1024" by (simp add: pow2_def)
  finally have fin: "\<not> pow2 1024 \<le> (of_int n :: rat)" by simp
  show ?thesis
    using assms(1) fin unfolding round_magnitude_def e Let_def v by simp
qed

lemma f64_of_small: "0 < n \<Longrightarrow> n < 2 ^ 53 \<Longrightarrow> f64 s (of_int n) = Number s (of_int n)"
  by (simp add: f64_def round_magnitude_exact)

lemma f64_one: "f64 s 1 = Number s 1"
  using f64_of_small [of 1 s] by simp

lemma f64_hundred: "f64 s 100 = Number s 100"
  using f64_of_small [of 100 s] by simp

lemma float64_of_int64_pos:
  assumes "0 < n" and "n < 2 ^ 63"
  shows "\<exists>m. float64_of_int64 n = Number False m \<and> 0 < m"
proof -
  have "n < 2 ^ 64" using assms(2) by simp
  then obtain m where "round_magnitude (of_int n) = Some m" "0 < m"
    using round_magnitude_of_int [OF assms(1)] by blast
  then show ?thesis using assms(1) by (simp add: float64_of_int64_def f64_def)
qed

lemma float64_of_int64_small:
  "0 < n \<Longrightarrow> n < 2 ^ 53 \<Longrightarrow> float64_of_int64 n = Number False (of_int n)"
  by (simp add: float64_of_int64_def f64_of_small)

lemma float64_of_int64_small_neg:
  "n < 0 \<Longrightarrow> - (2 ^ 53) < n \<Longrightarrow> float64_of_int64 n = Number True (of_int (- n))"
  using f64_of_small [of "- n" True] by (simp add: float64_of_int64_def)

text \<open>The progress of line 137 when all of the declared length has arrived.\<close>

lemma progress_complete:
  assumes "0 < t" and "t < 2 ^ 63"
  shows "f64_mul (f64_div (float64_of_int64 t) (float64_of_int64 t)) (Number False 100)
         = Number False 100"
proof -
  obtain m where m: "float64_of_int64 t = Number False m" "0 < m"
    using float64_of_int64_pos [OF assms] by blast
  have "f64_div (Number False m) (Number False m) = Number False 1"
    using m(2) by (simp add: f64_one)
  then show ?thesis
    by (simp add: m(1) f64_hundred)
qed

lemma int64_id: "- (2 ^ 63) \<le> x \<Longrightarrow> x < 2 ^ 63 \<Longrightarrow> int64 x = x"
  by (simp add: int64_def)

subsection \<open>Running the effects of a goroutine\<close>


lemma run_effects_append:
  "run_effects (xs @ ys) st =
     (case run_effects xs st of None \<Rightarrow> None | Some st' \<Rightarrow> run_effects ys st')"
  by (induction xs arbitrary: st) (auto split: option.splits)

lemma exec_PublishFile:
  "downloads st i = Some dl \<Longrightarrow>
   exec (PublishFile i a b c) st =
     Some (st\<lparr>downloads := (downloads st)(i \<mapsto> dl\<lparr>Filename := a, Filepath := b, SizeTotal := c\<rparr>)\<rparr>)"
  by (simp add: assign_def)

lemma exec_PublishSpeed:
  "downloads st i = Some dl \<Longrightarrow>
   exec (PublishSpeed i a) st = Some (st\<lparr>downloads := (downloads st)(i \<mapsto> dl\<lparr>Speed := a\<rparr>)\<rparr>)"
  by (simp add: assign_def)

lemma exec_PublishProgress:
  "downloads st i = Some dl \<Longrightarrow>
   exec (PublishProgress i a b) st =
     Some (st\<lparr>downloads := (downloads st)(i \<mapsto> dl\<lparr>SizeCurrent := a, Progress := b\<rparr>)\<rparr>)"
  by (simp add: assign_def)

lemma exec_UpdateStatus:
  "downloads st i = Some dl \<Longrightarrow>
   exec (UpdateStatus i s) st = Some (st\<lparr>downloads := (downloads st)(i \<mapsto> dl\<lparr>Status := s\<rparr>)\<rparr>)"
  by (simp add: updateStatus_def)

lemma state_same:
  "downloads st i = Some dl \<Longrightarrow> st\<lparr>downloads := (downloads st)(i \<mapsto> dl)\<rparr> = st"
  by (simp add: fun_upd_idem)

text \<open>
  The effects of the loop, run on a table that has the record: no panic; only the record
  of the goroutine changes; of its fields only the size, the progress and the speed
  change, and the status when the loop returns.
\<close>

lemma stream_run:
  assumes "downloads st i = Some dl"
  shows "\<exists>dl'. run_effects (fst (stream pf i t c rs)) st =
                 Some (st\<lparr>downloads := (downloads st)(i \<mapsto> dl')\<rparr>) \<and>
               ID dl' = ID dl \<and> URL dl' = URL dl \<and> Filename dl' = Filename dl \<and>
               Filepath dl' = Filepath dl \<and> SizeTotal dl' = SizeTotal dl \<and>
               Status dl' = (if snd (stream pf i t c rs) = Return then ''failed'' else Status dl)"
  using assms
proof (induction rs arbitrary: c st dl)
  case Nil
  have "run_effects (fst (stream pf i t c [])) st =
      Some (st\<lparr>downloads := (downloads st)(i \<mapsto> dl)\<rparr>)"
    by (simp only: stream.simps fst_conv run_effects.simps state_same [OF Nil])
  moreover have "Status dl = (if snd (stream pf i t c []) = Return then ''failed'' else Status dl)"
    by simp
  ultimately show ?case by blast
next
  case (Cons r rs)
  define c' where "c' = int64 (c + int (read_n r))"
  define speed where "speed = (if f64_positive (elapsed r)
      then [PublishSpeed i (int64_of_float64 (int64_out_of_range pf)
              (f64_div (float64_of_int64 c') (elapsed r)))]
      else [])"
  define progress where "progress =
      f64_mul (f64_div (float64_of_int64 c') (float64_of_int64 t)) (Number False 100)"
  define dl1 where "dl1 = (if f64_positive (elapsed r)
      then dl\<lparr>Speed := int64_of_float64 (int64_out_of_range pf)
              (f64_div (float64_of_int64 c') (elapsed r))\<rparr>
      else dl)\<lparr>SizeCurrent := c', Progress := progress\<rparr>"
  define pubs where "pubs = speed @ [PublishProgress i c' progress]"
  define st1 where "st1 = st\<lparr>downloads := (downloads st)(i \<mapsto> dl1)\<rparr>"
  have pub: "run_effects pubs st = Some st1"
    using Cons.prems
    by (simp add: pubs_def speed_def st1_def dl1_def assign_def)
  have st1: "downloads st1 i = Some dl1" by (simp add: st1_def)
  have restore: "st1\<lparr>downloads := (downloads st1)(i \<mapsto> d)\<rparr> = st\<lparr>downloads := (downloads st)(i \<mapsto> d)\<rparr>" for d
    by (simp add: st1_def)
  have same: "ID dl1 = ID dl" "URL dl1 = URL dl" "Filename dl1 = Filename dl"
    "Filepath dl1 = Filepath dl" "SizeTotal dl1 = SizeTotal dl" "Status dl1 = Status dl"
    by (simp_all add: dl1_def)
  have failed_same: "ID (d\<lparr>Status := ''failed''\<rparr>) = ID d" "URL (d\<lparr>Status := ''failed''\<rparr>) = URL d"
    "Filename (d\<lparr>Status := ''failed''\<rparr>) = Filename d"
    "Filepath (d\<lparr>Status := ''failed''\<rparr>) = Filepath d"
    "SizeTotal (d\<lparr>Status := ''failed''\<rparr>) = SizeTotal d" for d :: Download
    by simp_all
  let ?S = "stream pf i t c (r # rs)"
  have failed: "run_effects [UpdateStatus i ''failed''] st =
      Some (st\<lparr>downloads := (downloads st)(i \<mapsto> dl\<lparr>Status := ''failed''\<rparr>)\<rparr>)"
    using Cons.prems by (simp add: updateStatus_def)
  consider
      (wfail) "0 < read_n r" "\<not> write_ok r"
    | (eof) "0 < read_n r" "write_ok r" "read_err r = EOF"
    | (err) "0 < read_n r" "write_ok r" "read_err r = ReadError"
    | (more) "0 < read_n r" "write_ok r" "read_err r = NoError"
    | (eof0) "read_n r = 0" "read_err r = EOF"
    | (err0) "read_n r = 0" "read_err r = ReadError"
    | (more0) "read_n r = 0" "read_err r = NoError"
    by (cases "read_err r") auto
  then show ?case
  proof cases
    case wfail
    then have s: "?S = ([UpdateStatus i ''failed''], Return)" by simp
    have "run_effects (fst ?S) st =
        Some (st\<lparr>downloads := (downloads st)(i \<mapsto> dl\<lparr>Status := ''failed''\<rparr>)\<rparr>)"
      unfolding s fst_conv by (rule failed)
    moreover have "Status (dl\<lparr>Status := ''failed''\<rparr>) =
        (if snd ?S = Return then ''failed'' else Status dl)"
      unfolding s by simp
    ultimately show ?thesis using failed_same [of dl] by blast
  next
    case eof
    then have s: "?S = (pubs, Break)"
      by (simp add: Let_def pubs_def speed_def progress_def c'_def)
    have "run_effects (fst ?S) st = Some (st\<lparr>downloads := (downloads st)(i \<mapsto> dl1)\<rparr>)"
      unfolding s fst_conv pub by (simp add: st1_def)
    moreover have "Status dl1 = (if snd ?S = Return then ''failed'' else Status dl)"
      unfolding s by (simp add: same)
    ultimately show ?thesis using same by blast
  next
    case err
    then have s: "?S = (pubs @ [UpdateStatus i ''failed''], Return)"
      by (simp add: Let_def pubs_def speed_def progress_def c'_def)
    have "run_effects (fst ?S) st =
        Some (st\<lparr>downloads := (downloads st)(i \<mapsto> dl1\<lparr>Status := ''failed''\<rparr>)\<rparr>)"
      unfolding s fst_conv run_effects_append pub
      using st1 by (simp add: updateStatus_def restore)
    moreover have "Status (dl1\<lparr>Status := ''failed''\<rparr>) =
        (if snd ?S = Return then ''failed'' else Status dl)"
      unfolding s by simp
    ultimately show ?thesis using failed_same [of dl1] same by metis
  next
    case more
    obtain es e where rest: "stream pf i t c' rs = (es, e)" by (cases "stream pf i t c' rs")
    have s: "?S = (pubs @ es, e)"
      using more rest by (simp add: Let_def pubs_def speed_def progress_def c'_def)
    obtain dl' where dl': "run_effects es st1 = Some (st1\<lparr>downloads := (downloads st1)(i \<mapsto> dl')\<rparr>)"
      "ID dl' = ID dl1" "URL dl' = URL dl1" "Filename dl' = Filename dl1"
      "Filepath dl' = Filepath dl1" "SizeTotal dl' = SizeTotal dl1"
      "Status dl' = (if e = Return then ''failed'' else Status dl1)"
      using Cons.IH [OF st1, of c'] unfolding rest fst_conv snd_conv by blast
    have "run_effects (fst ?S) st = Some (st\<lparr>downloads := (downloads st)(i \<mapsto> dl')\<rparr>)"
      unfolding s fst_conv run_effects_append pub using dl'(1) by (simp add: restore)
    moreover have "Status dl' = (if snd ?S = Return then ''failed'' else Status dl)"
      using dl'(7) same unfolding s by simp
    ultimately show ?thesis using dl'(2-6) same by metis
  next
    case eof0
    then have s: "?S = ([], Break)" by simp
    have "run_effects (fst ?S) st = Some (st\<lparr>downloads := (downloads st)(i \<mapsto> dl)\<rparr>)"
      unfolding s by (simp only: fst_conv run_effects.simps state_same [OF Cons.prems])
    moreover have "Status dl = (if snd ?S = Return then ''failed'' else Status dl)"
      unfolding s by simp
    ultimately show ?thesis by blast
  next
    case err0
    then have s: "?S = ([UpdateStatus i ''failed''], Return)" by simp
    have "run_effects (fst ?S) st =
        Some (st\<lparr>downloads := (downloads st)(i \<mapsto> dl\<lparr>Status := ''failed''\<rparr>)\<rparr>)"
      unfolding s fst_conv by (rule failed)
    moreover have "Status (dl\<lparr>Status := ''failed''\<rparr>) =
        (if snd ?S = Return then ''failed'' else Status dl)"
      unfolding s by simp
    ultimately show ?thesis using failed_same [of dl] by blast
  next
    case more0
    then have "?S = stream pf i t c rs" by simp
    then show ?thesis using Cons.IH [OF Cons.prems, of c] by simp
  qed
qed


text \<open>
  A body read to its end: reads without error, then a read that returns \<^verbatim>\<open>io.EOF\<close>, and
  every write succeeds. The loop ends by \<^verbatim>\<open>break\<close>.
\<close>

lemma stream_clean_end:
  assumes "\<forall>x\<in>set rs. read_err x = NoError \<and> (0 < read_n x \<longrightarrow> write_ok x)"
    and "read_err r = EOF" and "0 < read_n r \<longrightarrow> write_ok r"
  shows "snd (stream pf i t c (rs @ r # rest)) = Break"
  using assms(1)
proof (induction rs arbitrary: c)
  case Nil
  show ?case using assms(2,3) by (simp add: Let_def)
next
  case (Cons x rs)
  then have x: "read_err x = NoError" "0 < read_n x \<longrightarrow> write_ok x"
    and rest: "\<forall>x\<in>set rs. read_err x = NoError \<and> (0 < read_n x \<longrightarrow> write_ok x)"
    by simp_all
  show ?case
  proof (cases "0 < read_n x")
    case True
    then show ?thesis
      using x Cons.IH [OF rest, of "int64 (c + int (read_n x))"]
      by (auto simp: Let_def split: prod.splits)
  next
    case False
    then show ?thesis using x Cons.IH [OF rest, of c] by simp
  qed
qed

text \<open>
  And if the bytes fit an \<^verbatim>\<open>int64\<close>, the size published last is their number, with the
  progress computed from it; when there are no bytes, nothing is published.
\<close>

lemma stream_clean_size:
  assumes "\<forall>x\<in>set rs. read_err x = NoError \<and> (0 < read_n x \<longrightarrow> write_ok x)"
    and "read_err r = EOF" and "0 < read_n r \<longrightarrow> write_ok r"
    and "0 \<le> c" and "c + (\<Sum>x\<leftarrow>rs @ [r]. int (read_n x)) < 2 ^ 63"
    and "downloads st i = Some dl"
  shows "\<exists>dl'. run_effects (fst (stream pf i t c (rs @ r # rest))) st =
                 Some (st\<lparr>downloads := (downloads st)(i \<mapsto> dl')\<rparr>) \<and>
               (if (\<Sum>x\<leftarrow>rs @ [r]. int (read_n x)) = 0
                then SizeCurrent dl' = SizeCurrent dl \<and> Progress dl' = Progress dl
                else SizeCurrent dl' = c + (\<Sum>x\<leftarrow>rs @ [r]. int (read_n x)) \<and>
                     Progress dl' =
                       f64_mul (f64_div (float64_of_int64 (c + (\<Sum>x\<leftarrow>rs @ [r]. int (read_n x))))
                                  (float64_of_int64 t)) (Number False 100))"
  using assms(1,4,5,6)
proof (induction rs arbitrary: c st dl)
  case Nil
  show ?case
  proof (cases "0 < read_n r")
    case False
    then have s: "stream pf i t c ([] @ r # rest) = ([], Break)"
      using assms(2) by simp
    have "run_effects (fst (stream pf i t c ([] @ r # rest))) st =
        Some (st\<lparr>downloads := (downloads st)(i \<mapsto> dl)\<rparr>)"
      unfolding s by (simp only: fst_conv run_effects.simps state_same [OF Nil(4)])
    moreover have "(\<Sum>x\<leftarrow>[] @ [r]. int (read_n x)) = 0" using False by simp
    ultimately show ?thesis by (intro exI [of _ dl] conjI) (assumption, simp only: if_True simp_thms)
  next
    case True
    define c' where "c' = c + int (read_n r)"
    have c': "int64 (c + int (read_n r)) = c'"
      using Nil(2,3) unfolding c'_def by (intro int64_id) simp_all
    define speed where "speed = (if f64_positive (elapsed r)
        then [PublishSpeed i (int64_of_float64 (int64_out_of_range pf)
                (f64_div (float64_of_int64 c') (elapsed r)))]
        else [])"
    define progress where "progress =
        f64_mul (f64_div (float64_of_int64 c') (float64_of_int64 t)) (Number False 100)"
    define dl1 where "dl1 = (if f64_positive (elapsed r)
        then dl\<lparr>Speed := int64_of_float64 (int64_out_of_range pf)
                (f64_div (float64_of_int64 c') (elapsed r))\<rparr>
        else dl)\<lparr>SizeCurrent := c', Progress := progress\<rparr>"
    define pubs where "pubs = speed @ [PublishProgress i c' progress]"
    have pub: "run_effects pubs st = Some (st\<lparr>downloads := (downloads st)(i \<mapsto> dl1)\<rparr>)"
      using Nil(4) by (simp add: pubs_def speed_def dl1_def assign_def)
    have s: "stream pf i t c ([] @ r # rest) = (pubs, Break)"
      using True assms(2,3) by (simp add: Let_def c' pubs_def speed_def progress_def)
    have "run_effects (fst (stream pf i t c ([] @ r # rest))) st =
        Some (st\<lparr>downloads := (downloads st)(i \<mapsto> dl1)\<rparr>)"
      unfolding s fst_conv by (rule pub)
    moreover have "(\<Sum>x\<leftarrow>[] @ [r]. int (read_n x)) \<noteq> 0" using True by simp
    moreover have "SizeCurrent dl1 = c + (\<Sum>x\<leftarrow>[] @ [r]. int (read_n x))"
      "Progress dl1 = f64_mul (f64_div (float64_of_int64 (c + (\<Sum>x\<leftarrow>[] @ [r]. int (read_n x))))
                                  (float64_of_int64 t)) (Number False 100)"
      by (simp_all add: dl1_def c'_def progress_def)
    ultimately show ?thesis
      by (intro exI [of _ dl1] conjI) (assumption, simp only: if_False simp_thms)
  qed
next
  case (Cons x rs)
  then have x: "read_err x = NoError" "0 < read_n x \<longrightarrow> write_ok x"
    and rest: "\<forall>x\<in>set rs. read_err x = NoError \<and> (0 < read_n x \<longrightarrow> write_ok x)"
    by simp_all
  define total where "total = (\<Sum>x\<leftarrow>rs @ [r]. int (read_n x))"
  have total0: "0 \<le> total"
    unfolding total_def by (rule sum_list_nonneg) auto
  have sum: "(\<Sum>y\<leftarrow>(x # rs) @ [r]. int (read_n y)) = int (read_n x) + total"
    by (simp add: total_def)
  have bound: "c + int (read_n x) + total < 2 ^ 63"
    using Cons.prems(3) unfolding sum by simp
  show ?case
  proof (cases "0 < read_n x")
    case False
    then have s: "stream pf i t c ((x # rs) @ r # rest) = stream pf i t c (rs @ r # rest)"
      using x by simp
    have b: "c + total < 2 ^ 63" using bound False by simp
    have same: "int (read_n x) + total = total" using False by simp
    show ?thesis
      unfolding s sum same
      using Cons.IH [OF rest Cons.prems(2) b [unfolded total_def] Cons.prems(4)]
      unfolding total_def by blast
  next
    case True
    define c' where "c' = c + int (read_n x)"
    have c': "int64 (c + int (read_n x)) = c'"
      using Cons.prems(2) bound total0 unfolding c'_def by (intro int64_id) simp_all
    have c'0: "0 \<le> c'" "0 < c'" using Cons.prems(2) True by (simp_all add: c'_def)
    define speed where "speed = (if f64_positive (elapsed x)
        then [PublishSpeed i (int64_of_float64 (int64_out_of_range pf)
                (f64_div (float64_of_int64 c') (elapsed x)))]
        else [])"
    define progress where "progress =
        f64_mul (f64_div (float64_of_int64 c') (float64_of_int64 t)) (Number False 100)"
    define dl1 where "dl1 = (if f64_positive (elapsed x)
        then dl\<lparr>Speed := int64_of_float64 (int64_out_of_range pf)
                (f64_div (float64_of_int64 c') (elapsed x))\<rparr>
        else dl)\<lparr>SizeCurrent := c', Progress := progress\<rparr>"
    define pubs where "pubs = speed @ [PublishProgress i c' progress]"
    define st1 where "st1 = st\<lparr>downloads := (downloads st)(i \<mapsto> dl1)\<rparr>"
    have pub: "run_effects pubs st = Some st1"
      using Cons.prems(4) by (simp add: pubs_def speed_def dl1_def st1_def assign_def)
    have st1: "downloads st1 i = Some dl1" by (simp add: st1_def)
    have restore: "st1\<lparr>downloads := (downloads st1)(i \<mapsto> d)\<rparr> =
        st\<lparr>downloads := (downloads st)(i \<mapsto> d)\<rparr>" for d
      by (simp add: st1_def)
    obtain es e where tl: "stream pf i t c' (rs @ r # rest) = (es, e)"
      by (cases "stream pf i t c' (rs @ r # rest)")
    have s: "stream pf i t c ((x # rs) @ r # rest) = (pubs @ es, e)"
      using True x tl by (simp add: Let_def c' pubs_def speed_def progress_def)
    have b: "c' + (\<Sum>x\<leftarrow>rs @ [r]. int (read_n x)) < 2 ^ 63"
      using bound by (simp add: c'_def total_def)
    obtain dl' where dl': "run_effects es st1 = Some (st1\<lparr>downloads := (downloads st1)(i \<mapsto> dl')\<rparr>)"
      and fin: "if total = 0
        then SizeCurrent dl' = SizeCurrent dl1 \<and> Progress dl' = Progress dl1
        else SizeCurrent dl' = c' + total \<and>
             Progress dl' = f64_mul (f64_div (float64_of_int64 (c' + total))
                                       (float64_of_int64 t)) (Number False 100)"
      using Cons.IH [OF rest c'0(1) b st1] unfolding tl fst_conv total_def by blast
    have run: "run_effects (fst (stream pf i t c ((x # rs) @ r # rest))) st =
        Some (st\<lparr>downloads := (downloads st)(i \<mapsto> dl')\<rparr>)"
      unfolding s fst_conv run_effects_append pub using dl' by (simp add: restore)
    have d1: "SizeCurrent dl1 = c'" "Progress dl1 = progress"
      by (simp_all add: dl1_def)
    have pos: "int (read_n x) + total \<noteq> 0" using True total0 by simp
    have "SizeCurrent dl' = c + (int (read_n x) + total) \<and>
          Progress dl' = f64_mul (f64_div (float64_of_int64 (c + (int (read_n x) + total)))
                                    (float64_of_int64 t)) (Number False 100)"
    proof (cases "total = 0")
      case True
      then show ?thesis using fin d1 by (simp add: c'_def progress_def)
    next
      case False
      then show ?thesis using fin by (simp add: c'_def add.assoc)
    qed
    then show ?thesis
      unfolding sum using run pos by (intro exI [of _ dl'] conjI) (assumption, simp only: if_False simp_thms)
  qed
qed


text \<open>The effects of \<^verbatim>\<open>startDownload\<close> once the response has arrived and the file is open.\<close>

lemma startDownload_response:
  assumes "http_Get env = GetResponse resp" and "create_ok env"
  shows "startDownload pf env i url =
     ([MkdirAll (categoryDir pf url (ContentType resp)) (mkdir_ok env),
       Create (tempPath pf url),
       PublishFile i (getFilename pf url) (finalPath pf url (ContentType resp)) (ContentLength resp)]
      @ fst (stream pf i (ContentLength resp) 0 (Body resp))
      @ (if snd (stream pf i (ContentLength resp) 0 (Body resp)) = Break
         then [Rename (tempPath pf url) (finalPath pf url (ContentType resp)) (rename_ok env),
               UpdateStatus i ''completed'']
         else []),
      snd (stream pf i (ContentLength resp) 0 (Body resp)) \<noteq> Blocked)"
proof -
  obtain es e where s: "stream pf i (ContentLength resp) 0 (Body resp) = (es, e)"
    by (cases "stream pf i (ContentLength resp) 0 (Body resp)")
  show ?thesis
    using assms unfolding s
    by (cases e)
       (simp_all add: startDownload_def getCategoryDir_def categoryDir_def tempPath_def
          finalPath_def Let_def s)
qed

lemma record_at_inj:
  assumes "st\<lparr>downloads := m(i \<mapsto> a)\<rparr> = st\<lparr>downloads := m(i \<mapsto> b)\<rparr>"
  shows "a = b"
proof -
  have "downloads (st\<lparr>downloads := m(i \<mapsto> a)\<rparr>) i = downloads (st\<lparr>downloads := m(i \<mapsto> b)\<rparr>) i"
    by (simp only: assms)
  then show ?thesis by simp
qed

text \<open>
  The whole run on a table that has the record: the three effects before the loop, the
  loop, and after a \<^verbatim>\<open>break\<close> the rename and the last status.
\<close>

lemma worker_run:
  assumes "http_Get env = GetResponse resp" and "create_ok env"
    and "downloads st i = Some dl"
    and "st0 = st\<lparr>downloads := (downloads st)(i \<mapsto> dl\<lparr>Filename := getFilename pf url,
              Filepath := finalPath pf url (ContentType resp),
              SizeTotal := ContentLength resp\<rparr>),
            files := (if mkdir_ok env
                      then (files st)(categoryDir pf url (ContentType resp) := StatOk)
                      else files st)(tempPath pf url := StatOk)\<rparr>"
    and "run_effects (fst (stream pf i (ContentLength resp) 0 (Body resp))) st0 =
           Some (st0\<lparr>downloads := (downloads st0)(i \<mapsto> dl1)\<rparr>)"
  shows "run_effects (fst (startDownload pf env i url)) st =
     Some (if snd (stream pf i (ContentLength resp) 0 (Body resp)) = Break
           then st0\<lparr>downloads := (downloads st0)(i \<mapsto> dl1\<lparr>Status := ''completed''\<rparr>),
                    files := (if rename_ok env
                              then (files st0)(tempPath pf url := StatNotExist,
                                     finalPath pf url (ContentType resp) := StatOk)
                              else files st0)\<rparr>
           else st0\<lparr>downloads := (downloads st0)(i \<mapsto> dl1)\<rparr>)"
proof -
  let ?pre = "[MkdirAll (categoryDir pf url (ContentType resp)) (mkdir_ok env),
       Create (tempPath pf url),
       PublishFile i (getFilename pf url) (finalPath pf url (ContentType resp)) (ContentLength resp)]"
  let ?post = "[Rename (tempPath pf url) (finalPath pf url (ContentType resp)) (rename_ok env),
               UpdateStatus i ''completed'']"
  define st1 where "st1 = st0\<lparr>downloads := (downloads st0)(i \<mapsto> dl1)\<rparr>"
  have pre: "run_effects ?pre st = Some st0"
    using assms(3) by (simp add: assms(4) assign_def)
  have loop: "run_effects (fst (stream pf i (ContentLength resp) 0 (Body resp))) st0 = Some st1"
    using assms(5) by (simp only: st1_def)
  have post: "run_effects ?post st1 =
      Some (st0\<lparr>downloads := (downloads st0)(i \<mapsto> dl1\<lparr>Status := ''completed''\<rparr>),
                files := (if rename_ok env
                          then (files st0)(tempPath pf url := StatNotExist,
                                 finalPath pf url (ContentType resp) := StatOk)
                          else files st0)\<rparr>)"
    by (simp add: st1_def updateStatus_def)
  show ?thesis
  proof (cases "snd (stream pf i (ContentLength resp) 0 (Body resp)) = Break")
    case True
    have "fst (startDownload pf env i url) =
        ?pre @ fst (stream pf i (ContentLength resp) 0 (Body resp)) @ ?post"
      unfolding startDownload_response [OF assms(1,2)] fst_conv using True by simp
    then have "run_effects (fst (startDownload pf env i url)) st = run_effects ?post st1"
      by (simp only: run_effects_append pre loop option.case)
    then show ?thesis using True by (simp only: post if_True simp_thms)
  next
    case False
    have "fst (startDownload pf env i url) =
        ?pre @ fst (stream pf i (ContentLength resp) 0 (Body resp)) @ []"
      unfolding startDownload_response [OF assms(1,2)] fst_conv using False by simp
    then have "run_effects (fst (startDownload pf env i url)) st = run_effects [] st1"
      by (simp only: run_effects_append pre loop option.case)
    then show ?thesis using False by (simp only: if_False run_effects.simps st1_def simp_thms)
  qed
qed

subsection \<open>The sample runs\<close>


lemma sample_paths:
  "getFilename sample_platform ''http://x/a.zip'' = ''a.zip''"
  "categoryDir sample_platform ''http://x/a.zip'' '''' = ''/d/compressed''"
  "tempPath sample_platform ''http://x/a.zip'' = ''/d/temp/a.zip.goloadtemp''"
  "finalPath sample_platform ''http://x/a.zip'' '''' = ''/d/compressed/a.zip''"
  by (simp_all add: getFilename_def categoryDir_def tempPath_def finalPath_def category_def
        sample_platform_def)

lemma int64_small: "int64 2 = 2" "int64 3 = 3" "int64 5 = 5"
  by (simp_all add: int64_def)

lemma progress_samples:
  "f64_mul (f64_div (float64_of_int64 5) (float64_of_int64 (- 1))) (Number False 100)
     = Number True 500"
  "f64_mul (f64_div (float64_of_int64 3) (float64_of_int64 3)) (Number False 100)
     = Number False 100"
proof -
  have five: "float64_of_int64 5 = Number False 5"
    using float64_of_int64_small [of 5] by simp
  have minus: "float64_of_int64 (- 1) = Number True 1"
    using float64_of_int64_small_neg [of "- 1"] by simp
  have q: "f64 True 5 = Number True 5" using f64_of_small [of 5 True] by simp
  have p: "f64 True 500 = Number True 500" using f64_of_small [of 500 True] by simp
  show "f64_mul (f64_div (float64_of_int64 5) (float64_of_int64 (- 1))) (Number False 100)
     = Number True 500"
    by (simp add: five minus q p)
  show "f64_mul (f64_div (float64_of_int64 3) (float64_of_int64 3)) (Number False 100)
     = Number False 100"
    by (rule progress_complete) simp_all
qed

text \<open>The effects of the sample runs.\<close>

lemma no_length_effects:
  "startDownload sample_platform (answered no_length renamed) ''7'' ''http://x/a.zip'' =
     ([MkdirAll ''/d/compressed'' True, Create ''/d/temp/a.zip.goloadtemp'',
       PublishFile ''7'' ''a.zip'' ''/d/compressed/a.zip'' (- 1),
       PublishProgress ''7'' 5 (Number True 500),
       Rename ''/d/temp/a.zip.goloadtemp'' ''/d/compressed/a.zip'' renamed,
       UpdateStatus ''7'' ''completed''], True)"
proof -
  have resp: "http_Get (answered no_length renamed) = GetResponse no_length"
    and ok: "create_ok (answered no_length renamed)"
    by (simp_all add: answered_def)
  have s: "stream sample_platform ''7'' (- 1) 0 [sample_read 5 EOF] =
      ([PublishProgress ''7'' 5 (Number True 500)], Break)"
    by (simp add: sample_read_def Let_def int64_small progress_samples)
  have r: "Body no_length = [sample_read 5 EOF]" "ContentLength no_length = - 1"
    "ContentType no_length = []"
    by (simp_all add: no_length_def)
  show ?thesis
    unfolding startDownload_response [OF resp ok] r s sample_paths
    by (simp add: answered_def)
qed

lemma three_bytes_effects:
  "startDownload sample_platform (answered three_bytes renamed) ''7'' ''http://x/a.zip'' =
     ([MkdirAll ''/d/compressed'' True, Create ''/d/temp/a.zip.goloadtemp'',
       PublishFile ''7'' ''a.zip'' ''/d/compressed/a.zip'' 3,
       PublishProgress ''7'' 2
         (f64_mul (f64_div (float64_of_int64 2) (float64_of_int64 3)) (Number False 100)),
       PublishProgress ''7'' 3 (Number False 100),
       Rename ''/d/temp/a.zip.goloadtemp'' ''/d/compressed/a.zip'' renamed,
       UpdateStatus ''7'' ''completed''], True)"
proof -
  have resp: "http_Get (answered three_bytes renamed) = GetResponse three_bytes"
    and ok: "create_ok (answered three_bytes renamed)"
    by (simp_all add: answered_def)
  have s: "stream sample_platform ''7'' 3 0 [sample_read 2 NoError, sample_read 1 EOF] =
      ([PublishProgress ''7'' 2
         (f64_mul (f64_div (float64_of_int64 2) (float64_of_int64 3)) (Number False 100)),
        PublishProgress ''7'' 3 (Number False 100)], Break)"
    by (simp add: sample_read_def Let_def int64_small progress_samples)
  have r: "Body three_bytes = [sample_read 2 NoError, sample_read 1 EOF]"
    "ContentLength three_bytes = 3" "ContentType three_bytes = []"
    by (simp_all add: three_bytes_def)
  show ?thesis
    unfolding startDownload_response [OF resp ok] r s sample_paths
    by (simp add: answered_def)
qed


lemma unreachable_effects:
  "startDownload pf unreachable i url = ([UpdateStatus i ''failed''], True)"
  by (simp add: startDownload_def unreachable_def)

lemma no_length_record:
  "map_option (\<lambda>st. downloads st ''7'')
     (run_effects (fst (startDownload sample_platform (answered no_length renamed) ''7''
        ''http://x/a.zip'')) started) =
   Some (Some \<lparr>ID = ''7'', URL = ''http://x/a.zip'', Filename = ''a.zip'',
      Filepath = ''/d/compressed/a.zip'', Status = ''completed'',
      SizeCurrent = 5, SizeTotal = - 1, Progress = Number True 500, Speed = 0\<rparr>)"
  unfolding no_length_effects fst_conv
  by (simp add: started_def new_download_def assign_def updateStatus_def)

lemma three_bytes_record:
  "map_option (\<lambda>st. downloads st ''7'')
     (run_effects (fst (startDownload sample_platform (answered three_bytes renamed) ''7''
        ''http://x/a.zip'')) started) =
   Some (Some \<lparr>ID = ''7'', URL = ''http://x/a.zip'', Filename = ''a.zip'',
      Filepath = ''/d/compressed/a.zip'', Status = ''completed'',
      SizeCurrent = 3, SizeTotal = 3, Progress = Number False 100, Speed = 0\<rparr>)"
  unfolding three_bytes_effects fst_conv
  by (simp add: started_def new_download_def assign_def updateStatus_def)

lemma three_bytes_files:
  "map_option (\<lambda>st. files st ''/d/compressed/a.zip'')
     (run_effects (fst (startDownload sample_platform (answered three_bytes renamed) ''7''
        ''http://x/a.zip'')) started) =
   Some (if renamed then StatOk else StatNotExist)"
  unfolding three_bytes_effects fst_conv
  by (simp add: started_def new_download_def assign_def updateStatus_def no_files_def)


text \<open>
  The whole run, with what the loop leaves: only the record of the goroutine changes, and
  the files are those at the start of the loop unless the loop ends by \<^verbatim>\<open>break\<close> and the
  rename succeeds.
\<close>

lemma worker_result:
  assumes "http_Get env = GetResponse resp" and "create_ok env"
    and "downloads st i = Some dl"
  shows "\<exists>st' dl1.
      run_effects (fst (stream pf i (ContentLength resp) 0 (Body resp)))
        (opened pf env resp i url dl st) =
        Some ((opened pf env resp i url dl st)
                \<lparr>downloads := (downloads (opened pf env resp i url dl st))(i \<mapsto> dl1)\<rparr>) \<and>
      run_effects (fst (startDownload pf env i url)) st = Some st' \<and>
      downloads st' =
        (downloads st)(i \<mapsto>
           (if snd (stream pf i (ContentLength resp) 0 (Body resp)) = Break
            then dl1\<lparr>Status := ''completed''\<rparr> else dl1)) \<and>
      files st' =
        (if snd (stream pf i (ContentLength resp) 0 (Body resp)) = Break \<and> rename_ok env
         then (files (opened pf env resp i url dl st))
                (tempPath pf url := StatNotExist, finalPath pf url (ContentType resp) := StatOk)
         else files (opened pf env resp i url dl st)) \<and>
      ID dl1 = ID dl \<and> URL dl1 = URL dl \<and> Filename dl1 = getFilename pf url \<and>
      Filepath dl1 = finalPath pf url (ContentType resp) \<and>
      SizeTotal dl1 = ContentLength resp \<and>
      Status dl1 =
        (if snd (stream pf i (ContentLength resp) 0 (Body resp)) = Return
         then ''failed'' else Status dl)"
proof -
  let ?st0 = "opened pf env resp i url dl st"
  let ?dl0 = "dl\<lparr>Filename := getFilename pf url,
           Filepath := finalPath pf url (ContentType resp),
           SizeTotal := ContentLength resp\<rparr>"
  have st0: "downloads ?st0 i = Some ?dl0" by (simp add: opened_def)
  obtain dl1 where run1: "run_effects (fst (stream pf i (ContentLength resp) 0 (Body resp))) ?st0 =
      Some (?st0\<lparr>downloads := (downloads ?st0)(i \<mapsto> dl1)\<rparr>)"
    and same: "ID dl1 = ID ?dl0" "URL dl1 = URL ?dl0" "Filename dl1 = Filename ?dl0"
      "Filepath dl1 = Filepath ?dl0" "SizeTotal dl1 = SizeTotal ?dl0"
      "Status dl1 = (if snd (stream pf i (ContentLength resp) 0 (Body resp)) = Return
                     then ''failed'' else Status ?dl0)"
    using stream_run [OF st0, of pf "ContentLength resp" 0 "Body resp"] by blast
  have eq: "?st0 = st\<lparr>downloads := (downloads st)(i \<mapsto> ?dl0),
            files := (if mkdir_ok env
                      then (files st)(categoryDir pf url (ContentType resp) := StatOk)
                      else files st)(tempPath pf url := StatOk)\<rparr>"
    by (simp add: opened_def)
  note run = worker_run [OF assms eq run1]
  define st' where "st' = (if snd (stream pf i (ContentLength resp) 0 (Body resp)) = Break
           then ?st0\<lparr>downloads := (downloads ?st0)(i \<mapsto> dl1\<lparr>Status := ''completed''\<rparr>),
                    files := (if rename_ok env
                              then (files ?st0)(tempPath pf url := StatNotExist,
                                     finalPath pf url (ContentType resp) := StatOk)
                              else files ?st0)\<rparr>
           else ?st0\<lparr>downloads := (downloads ?st0)(i \<mapsto> dl1)\<rparr>)"
  have r: "run_effects (fst (startDownload pf env i url)) st = Some st'"
    using run by (simp only: st'_def)
  have d: "downloads st' =
        (downloads st)(i \<mapsto>
           (if snd (stream pf i (ContentLength resp) 0 (Body resp)) = Break
            then dl1\<lparr>Status := ''completed''\<rparr> else dl1))"
    by (simp add: st'_def opened_def)
  have f: "files st' =
        (if snd (stream pf i (ContentLength resp) 0 (Body resp)) = Break \<and> rename_ok env
         then (files ?st0)
                (tempPath pf url := StatNotExist, finalPath pf url (ContentType resp) := StatOk)
         else files ?st0)"
    by (simp add: st'_def)
  have fields: "ID dl1 = ID dl" "URL dl1 = URL dl" "Filename dl1 = getFilename pf url"
    "Filepath dl1 = finalPath pf url (ContentType resp)" "SizeTotal dl1 = ContentLength resp"
    "Status dl1 = (if snd (stream pf i (ContentLength resp) 0 (Body resp)) = Return
                   then ''failed'' else Status dl)"
    using same by simp_all
  show ?thesis
    using run1 r d f fields by blast
qed

subsection \<open>The running program keeps its invariant\<close>


lemma own_effects_stream:
  assumes "own_effects i post"
  shows "own_effects i (fst (stream pf i t c rs) @
           (if snd (stream pf i t c rs) = Break then post else []))"
proof (induction rs arbitrary: c)
  case Nil
  show ?case by simp
next
  case (Cons r rs)
  define c' where "c' = int64 (c + int (read_n r))"
  define pubs where "pubs = (if f64_positive (elapsed r)
      then [PublishSpeed i (int64_of_float64 (int64_out_of_range pf)
              (f64_div (float64_of_int64 c') (elapsed r)))]
      else []) @
      [PublishProgress i c'
         (f64_mul (f64_div (float64_of_int64 c') (float64_of_int64 t)) (Number False 100))]"
  have pubs: "own_effects i (pubs @ es) = own_effects i es" for es
    by (simp add: pubs_def)
  let ?S = "stream pf i t c (r # rs)"
  consider
      (wfail) "0 < read_n r" "\<not> write_ok r"
    | (eof) "0 < read_n r" "write_ok r" "read_err r = EOF"
    | (err) "0 < read_n r" "write_ok r" "read_err r = ReadError"
    | (more) "0 < read_n r" "write_ok r" "read_err r = NoError"
    | (eof0) "read_n r = 0" "read_err r = EOF"
    | (err0) "read_n r = 0" "read_err r = ReadError"
    | (more0) "read_n r = 0" "read_err r = NoError"
    by (cases "read_err r") auto
  then show ?case
  proof cases
    case wfail
    then have s: "?S = ([UpdateStatus i ''failed''], Return)" by simp
    show ?thesis unfolding s by simp
  next
    case eof
    then have s: "?S = (pubs, Break)" by (simp add: Let_def pubs_def c'_def)
    show ?thesis unfolding s using assms by (simp add: pubs)
  next
    case err
    then have s: "?S = (pubs @ [UpdateStatus i ''failed''], Return)"
      by (simp add: Let_def pubs_def c'_def)
    show ?thesis unfolding s by (simp add: pubs)
  next
    case more
    obtain es e where tl: "stream pf i t c' rs = (es, e)" by (cases "stream pf i t c' rs")
    have s: "?S = (pubs @ es, e)"
      using more tl by (simp add: Let_def pubs_def c'_def)
    show ?thesis unfolding s using Cons.IH [of c'] by (simp add: tl pubs)
  next
    case eof0
    then have s: "?S = ([], Break)" by simp
    show ?thesis unfolding s using assms by simp
  next
    case err0
    then have s: "?S = ([UpdateStatus i ''failed''], Return)" by simp
    show ?thesis unfolding s by simp
  next
    case more0
    then have s: "?S = stream pf i t c rs" by simp
    show ?thesis unfolding s by (rule Cons.IH)
  qed
qed

text \<open>The effects of \<^verbatim>\<open>startDownload\<close> are of this kind.\<close>

lemma own_effects_startDownload: "own_effects i (fst (startDownload pf env i url))"
proof (cases "http_Get env")
  case GetError
  then show ?thesis by (simp add: startDownload_def)
next
  case (GetResponse resp)
  show ?thesis
  proof (cases "create_ok env")
    case False
    then show ?thesis
      using GetResponse by (simp add: startDownload_def getCategoryDir_def Let_def)
  next
    case True
    have "own_effects i [Rename (tempPath pf url) (finalPath pf url (ContentType resp)) (rename_ok env),
               UpdateStatus i ''completed'']"
      by simp
    from own_effects_stream [OF this, of pf "ContentLength resp" 0 "Body resp"]
    show ?thesis
      unfolding startDownload_response [OF GetResponse True] fst_conv by simp
  qed
qed


lemma exec_own:
  fixes s :: system
  assumes "own_effects j (e # es)" and "downloads s j = Some dl"
  shows "\<exists>s1 dl'. exec e s = Some s1 \<and> goroutines s1 = goroutines s \<and>
           (\<forall>k. k \<noteq> j \<longrightarrow> downloads s1 k = downloads s k) \<and>
           downloads s1 j = Some dl' \<and>
           (Status dl' = Status dl \<or>
            es = [] \<and> (Status dl' = ''completed'' \<or> Status dl' = ''failed'')) \<and>
           own_effects j es"
proof (cases e)
  case (MkdirAll d ok)
  then show ?thesis using assms by simp
next
  case (Create p)
  then show ?thesis using assms by simp
next
  case (PublishFile i a b c)
  then show ?thesis using assms by (simp add: assign_def)
next
  case (PublishSpeed i a)
  then show ?thesis using assms by (simp add: assign_def)
next
  case (PublishProgress i a b)
  then show ?thesis using assms by (simp add: assign_def)
next
  case (Rename a b ok)
  then show ?thesis using assms by simp
next
  case (UpdateStatus i st)
  then show ?thesis using assms by (auto simp: updateStatus_def)
qed

lemma sweep_keeps:
  "cleanInvalidDownloads fs ks ds k = None \<or> cleanInvalidDownloads fs ks ds k = ds k"
  by (auto simp: cleanInvalidDownloads_apply split: option.splits)

lemma sweep_keeps_in_progress:
  "ds k = Some dl \<Longrightarrow> Status dl = ''in_progress'' \<Longrightarrow> cleanInvalidDownloads fs ks ds k = Some dl"
  by (auto simp: cleanInvalidDownloads_apply)

lemma remove_failed_keeps:
  "remove_failed ks ds k = None \<or> remove_failed ks ds k = ds k"
  by (auto simp: remove_failed_apply split: option.splits)

lemma remove_failed_keeps_in_progress:
  "ds k = Some dl \<Longrightarrow> Status dl = ''in_progress'' \<Longrightarrow> remove_failed ks ds k = Some dl"
  by (auto simp: remove_failed_apply)

lemma invariantI:
  assumes "\<And>k dl. downloads s k = Some dl \<Longrightarrow>
             Status dl = ''in_progress'' \<or> Status dl = ''completed'' \<or> Status dl = ''failed''"
    and "\<And>a. a < length (goroutines s) \<Longrightarrow>
           own_effects (fst (goroutines s ! a)) (snd (goroutines s ! a))"
    and "\<And>a. a < length (goroutines s) \<Longrightarrow> snd (goroutines s ! a) \<noteq> [] \<Longrightarrow>
           \<exists>dl. downloads s (fst (goroutines s ! a)) = Some dl \<and> Status dl = ''in_progress''"
    and "\<And>a b. a < length (goroutines s) \<Longrightarrow> b < length (goroutines s) \<Longrightarrow> a \<noteq> b \<Longrightarrow>
           snd (goroutines s ! a) \<noteq> [] \<Longrightarrow> snd (goroutines s ! b) \<noteq> [] \<Longrightarrow>
           fst (goroutines s ! a) \<noteq> fst (goroutines s ! b)"
  shows "invariant s"
  unfolding invariant_def using assms by blast

lemma invariant_status:
  "invariant s \<Longrightarrow> downloads s k = Some dl \<Longrightarrow>
   Status dl = ''in_progress'' \<or> Status dl = ''completed'' \<or> Status dl = ''failed''"
  unfolding invariant_def by blast

lemma invariant_own:
  "invariant s \<Longrightarrow> a < length (goroutines s) \<Longrightarrow>
   own_effects (fst (goroutines s ! a)) (snd (goroutines s ! a))"
  unfolding invariant_def by blast

lemma invariant_record:
  "invariant s \<Longrightarrow> a < length (goroutines s) \<Longrightarrow> snd (goroutines s ! a) \<noteq> [] \<Longrightarrow>
   \<exists>dl. downloads s (fst (goroutines s ! a)) = Some dl \<and> Status dl = ''in_progress''"
  unfolding invariant_def by blast

lemma invariant_distinct:
  "invariant s \<Longrightarrow> a < length (goroutines s) \<Longrightarrow> b < length (goroutines s) \<Longrightarrow> a \<noteq> b \<Longrightarrow>
   snd (goroutines s ! a) \<noteq> [] \<Longrightarrow> snd (goroutines s ! b) \<noteq> [] \<Longrightarrow>
   fst (goroutines s ! a) \<noteq> fst (goroutines s ! b)"
  unfolding invariant_def by blast


text \<open>A loop that only removes records, none of them in progress, keeps the invariant.\<close>

lemma invariant_removal:
  assumes inv: "invariant s"
    and keeps: "\<And>k. ds' k = None \<or> ds' k = downloads s k"
    and stays: "\<And>k dl. downloads s k = Some dl \<Longrightarrow> Status dl = ''in_progress'' \<Longrightarrow> ds' k = Some dl"
  shows "invariant (s\<lparr>downloads := ds'\<rparr>)"
proof (rule invariantI)
  fix k dl assume "downloads (s\<lparr>downloads := ds'\<rparr>) k = Some dl"
  then have "downloads s k = Some dl" using keeps [of k] by auto
  then show "Status dl = ''in_progress'' \<or> Status dl = ''completed'' \<or> Status dl = ''failed''"
    using inv by (rule invariant_status [rotated])
next
  fix a assume "a < length (goroutines (s\<lparr>downloads := ds'\<rparr>))"
  then show "own_effects (fst (goroutines (s\<lparr>downloads := ds'\<rparr>) ! a))
               (snd (goroutines (s\<lparr>downloads := ds'\<rparr>) ! a))"
    using invariant_own [OF inv, of a] by simp
next
  fix a assume "a < length (goroutines (s\<lparr>downloads := ds'\<rparr>))"
    and "snd (goroutines (s\<lparr>downloads := ds'\<rparr>) ! a) \<noteq> []"
  then obtain dl where "downloads s (fst (goroutines s ! a)) = Some dl" "Status dl = ''in_progress''"
    using invariant_record [OF inv, of a] by auto
  then show "\<exists>dl. downloads (s\<lparr>downloads := ds'\<rparr>) (fst (goroutines (s\<lparr>downloads := ds'\<rparr>) ! a)) = Some dl \<and>
                 Status dl = ''in_progress''"
    using stays by auto
next
  fix a b
  assume "a < length (goroutines (s\<lparr>downloads := ds'\<rparr>))"
    "b < length (goroutines (s\<lparr>downloads := ds'\<rparr>))" "a \<noteq> b"
    "snd (goroutines (s\<lparr>downloads := ds'\<rparr>) ! a) \<noteq> []"
    "snd (goroutines (s\<lparr>downloads := ds'\<rparr>) ! b) \<noteq> []"
  then show "fst (goroutines (s\<lparr>downloads := ds'\<rparr>) ! a) \<noteq> fst (goroutines (s\<lparr>downloads := ds'\<rparr>) ! b)"
    using invariant_distinct [OF inv, of a b] by simp
qed

text \<open>A new record under a key that the table does not have, with its goroutine.\<close>

lemma invariant_insert:
  assumes inv: "invariant s" and none: "downloads s i = None" and own: "own_effects i es"
  shows "invariant (s\<lparr>downloads := (downloads s)(i \<mapsto> new_download i url),
                      goroutines := goroutines s @ [(i, es)]\<rparr>)"
    (is "invariant ?s'")
proof (rule invariantI)
  have gs: "goroutines ?s' = goroutines s @ [(i, es)]" by simp
  have ds: "downloads ?s' = (downloads s)(i \<mapsto> new_download i url)" by simp
  have other: "fst (goroutines s ! a) \<noteq> i"
    if "a < length (goroutines s)" "snd (goroutines s ! a) \<noteq> []" for a
    using invariant_record [OF inv that] none by auto
  {
    fix k dl assume "downloads ?s' k = Some dl"
    then have "dl = new_download i url \<or> downloads s k = Some dl"
      by (auto split: if_splits)
    then show "Status dl = ''in_progress'' \<or> Status dl = ''completed'' \<or> Status dl = ''failed''"
      using invariant_status [OF inv] by (auto simp: new_download_def)
  next
    fix a assume "a < length (goroutines ?s')"
    then have "a < length (goroutines s) \<or> a = length (goroutines s)" by auto
    then show "own_effects (fst (goroutines ?s' ! a)) (snd (goroutines ?s' ! a))"
      using invariant_own [OF inv, of a] own by (auto simp: nth_append)
  next
    fix a assume a: "a < length (goroutines ?s')" and ne: "snd (goroutines ?s' ! a) \<noteq> []"
    show "\<exists>dl. downloads ?s' (fst (goroutines ?s' ! a)) = Some dl \<and> Status dl = ''in_progress''"
    proof (cases "a < length (goroutines s)")
      case True
      then have "snd (goroutines s ! a) \<noteq> []" using ne by (simp add: nth_append)
      then show ?thesis
        using invariant_record [OF inv True] other [OF True] True by (auto simp: nth_append)
    next
      case False
      then have "a = length (goroutines s)" using a by simp
      then show ?thesis by (simp add: new_download_def)
    qed
  next
    fix a b
    assume a: "a < length (goroutines ?s')" and b: "b < length (goroutines ?s')" and ab: "a \<noteq> b"
      and na: "snd (goroutines ?s' ! a) \<noteq> []" and nb: "snd (goroutines ?s' ! b) \<noteq> []"
    consider (old) "a < length (goroutines s)" "b < length (goroutines s)"
      | (newa) "a = length (goroutines s)" "b < length (goroutines s)"
      | (newb) "a < length (goroutines s)" "b = length (goroutines s)"
      using a b ab by auto linarith
    then show "fst (goroutines ?s' ! a) \<noteq> fst (goroutines ?s' ! b)"
    proof cases
      case old
      then show ?thesis
        using invariant_distinct [OF inv old ab] na nb by (simp add: nth_append)
    next
      case newa
      then show ?thesis using other [of b] nb by (auto simp: nth_append)
    next
      case newb
      then show ?thesis using other [of a] na by (auto simp: nth_append)
    qed
  }
qed


text \<open>The next effect of a goroutine.\<close>

lemma advance_result:
  assumes inv: "invariant s" and k: "k < length (goroutines s)"
    and g: "goroutines s ! k = (j, e # es)"
  shows "\<exists>s1 dl dl'. exec e s = Some s1 \<and> goroutines s1 = goroutines s \<and>
           (\<forall>i. i \<noteq> j \<longrightarrow> downloads s1 i = downloads s i) \<and>
           downloads s j = Some dl \<and> Status dl = ''in_progress'' \<and>
           downloads s1 j = Some dl' \<and>
           (Status dl' = ''in_progress'' \<or>
            es = [] \<and> (Status dl' = ''completed'' \<or> Status dl' = ''failed'')) \<and>
           own_effects j es"
proof -
  have own: "own_effects j (e # es)" using invariant_own [OF inv k] g by simp
  obtain dl where dl: "downloads s j = Some dl" "Status dl = ''in_progress''"
    using invariant_record [OF inv k] g by auto
  from exec_own [OF own dl(1)] dl show ?thesis by metis
qed

lemma invariant_advance:
  assumes inv: "invariant s" and k: "k < length (goroutines s)"
    and g: "goroutines s ! k = (j, e # es)" and ex: "exec e s = Some s1"
  shows "invariant (s1\<lparr>goroutines := (goroutines s)[k := (j, es)]\<rparr>)"
    (is "invariant ?s'")
proof -
  obtain dl dl' where gs1: "goroutines s1 = goroutines s"
    and others: "\<And>i. i \<noteq> j \<Longrightarrow> downloads s1 i = downloads s i"
    and dl: "downloads s j = Some dl" "Status dl = ''in_progress''"
    and dl': "downloads s1 j = Some dl'"
      "Status dl' = ''in_progress'' \<or>
       es = [] \<and> (Status dl' = ''completed'' \<or> Status dl' = ''failed'')"
    and own: "own_effects j es"
    using advance_result [OF inv k g] ex by auto
  have len: "length (goroutines ?s') = length (goroutines s)" by simp
  have at_k: "goroutines ?s' ! k = (j, es)" using k by simp
  have at: "goroutines ?s' ! a = goroutines s ! a" if "a \<noteq> k" for a
    using that by simp
  have ds: "downloads ?s' = downloads s1" by simp
  have live_k: "snd (goroutines s ! k) \<noteq> []" using g by simp
  have apart: "fst (goroutines s ! a) \<noteq> j"
    if "a < length (goroutines s)" "a \<noteq> k" "snd (goroutines s ! a) \<noteq> []" for a
    using invariant_distinct [OF inv that(1) k that(2,3) live_k] g by simp
  show ?thesis
  proof (rule invariantI)
    fix i d assume "downloads ?s' i = Some d"
    then have "d = dl' \<and> i = j \<or> downloads s i = Some d"
      using others [of i] dl' by (cases "i = j") auto
    then show "Status d = ''in_progress'' \<or> Status d = ''completed'' \<or> Status d = ''failed''"
      using dl'(2) invariant_status [OF inv] by blast
  next
    fix a assume a: "a < length (goroutines ?s')"
    show "own_effects (fst (goroutines ?s' ! a)) (snd (goroutines ?s' ! a))"
    proof (cases "a = k")
      case True
      then show ?thesis using own k by simp
    next
      case False
      then show ?thesis using invariant_own [OF inv, of a] a by simp
    qed
  next
    fix a assume a: "a < length (goroutines ?s')" and ne: "snd (goroutines ?s' ! a) \<noteq> []"
    show "\<exists>d. downloads ?s' (fst (goroutines ?s' ! a)) = Some d \<and> Status d = ''in_progress''"
    proof (cases "a = k")
      case True
      then have "es \<noteq> []" using ne k by simp
      then have "Status dl' = ''in_progress''" using dl'(2) by blast
      then show ?thesis using dl'(1) True k by simp
    next
      case False
      have a': "a < length (goroutines s)" using a by simp
      have ne': "snd (goroutines s ! a) \<noteq> []" using ne False by simp
      have "fst (goroutines s ! a) \<noteq> j" using apart [OF a' False ne'] .
      then have "downloads s1 (fst (goroutines s ! a)) = downloads s (fst (goroutines s ! a))"
        by (rule others)
      then show ?thesis
        using invariant_record [OF inv a' ne'] False by simp
    qed
  next
    fix a b
    assume a: "a < length (goroutines ?s')" and b: "b < length (goroutines ?s')" and ab: "a \<noteq> b"
      and na: "snd (goroutines ?s' ! a) \<noteq> []" and nb: "snd (goroutines ?s' ! b) \<noteq> []"
    have a': "a < length (goroutines s)" and b': "b < length (goroutines s)"
      using a b by simp_all
    consider (ak) "a = k" "b \<noteq> k" | (bk) "b = k" "a \<noteq> k" | (none) "a \<noteq> k" "b \<noteq> k"
      using ab by blast
    then show "fst (goroutines ?s' ! a) \<noteq> fst (goroutines ?s' ! b)"
    proof cases
      case ak
      have "snd (goroutines s ! b) \<noteq> []" using nb ak(2) by simp
      then have "fst (goroutines s ! b) \<noteq> j" using apart [OF b' ak(2)] by blast
      then show ?thesis using ak k by simp
    next
      case bk
      have "snd (goroutines s ! a) \<noteq> []" using na bk(2) by simp
      then have "fst (goroutines s ! a) \<noteq> j" using apart [OF a' bk(2)] by blast
      then show ?thesis using bk k by simp
    next
      case none
      have "snd (goroutines s ! a) \<noteq> []" "snd (goroutines s ! b) \<noteq> []"
        using na nb none by simp_all
      then show ?thesis
        using invariant_distinct [OF inv a' b' ab] none by simp
    qed
  qed
qed


lemma invariant_initial: "invariant (initial fs)"
  by (rule invariantI) (simp_all add: initial_def)

lemma invariant_step:
  assumes inv: "invariant s" and st: "step pf ev s = Some s'" and new: "new_id ev s"
  shows "invariant s'"
proof (cases ev)
  case (Sweep ks)
  then have s': "s' = s\<lparr>downloads := cleanInvalidDownloads (files s) ks (downloads s)\<rparr>"
    using st by (simp split: if_splits)
  show ?thesis
    unfolding s' using inv by (rule invariant_removal) (rule sweep_keeps, rule sweep_keeps_in_progress)
next
  case (RemoveFailed ks)
  then have s': "s' = s\<lparr>downloads := remove_failed ks (downloads s)\<rparr>"
    using st by (simp split: if_splits)
  show ?thesis
    unfolding s' using inv
    by (rule invariant_removal) (rule remove_failed_keeps, rule remove_failed_keeps_in_progress)
next
  case (Insert now url env)
  let ?i = "Sprintf_d now"
  have fresh: "downloads s ?i = None" and
    s': "s' = s\<lparr>downloads := (downloads s)(?i \<mapsto> new_download ?i url),
                  goroutines := goroutines s @ [(?i, fst (startDownload pf env ?i url))]\<rparr>"
    using st new Insert by (simp_all add: Let_def)
  show ?thesis
    unfolding s' using inv fresh own_effects_startDownload by (rule invariant_insert)
next
  case (Advance k)
  then obtain j e es s1 where k: "k < length (goroutines s)"
    and g: "goroutines s ! k = (j, e # es)" and ex: "exec e s = Some s1"
    and s': "s' = s1\<lparr>goroutines := (goroutines s)[k := (j, es)]\<rparr>"
    using st by (auto split: if_splits prod.splits list.splits option.splits)
  show ?thesis unfolding s' using inv k g ex by (rule invariant_advance)
next
  case (External fs)
  then have s': "s' = s\<lparr>files := fs\<rparr>" using st by simp
  show ?thesis
    unfolding s' using inv unfolding invariant_def by simp
qed

lemma invariant_run:
  "invariant s \<Longrightarrow> run pf evs s = Some s' \<Longrightarrow> new_ids pf evs s \<Longrightarrow> invariant s'"
proof (induction evs arbitrary: s)
  case Nil
  then show ?case by simp
next
  case (Cons ev evs)
  then obtain s1 where s1: "step pf ev s = Some s1" "run pf evs s1 = Some s'"
    by (auto split: option.splits)
  have new: "new_id ev s" "new_ids pf evs s1"
    using Cons.prems(3) s1(1) by simp_all
  show ?case
    using Cons.IH [OF invariant_step [OF Cons.prems(1) s1(1) new(1)] s1(2) new(2)] .
qed

text \<open>One block of the program, seen from one key of the table.\<close>

lemma step_status:
  assumes inv: "invariant s" and st: "step pf ev s = Some s'" and new: "new_id ev s"
  shows "(downloads s i = None \<longrightarrow> downloads s' i = None \<or>
            (\<exists>dl'. downloads s' i = Some dl' \<and> Status dl' = ''in_progress'')) \<and>
         (\<forall>dl. downloads s i = Some dl \<longrightarrow> downloads s' i = None \<or>
            (\<exists>dl'. downloads s' i = Some dl' \<and>
               (Status dl' = Status dl \<or>
                Status dl = ''in_progress'' \<and>
                (Status dl' = ''completed'' \<or> Status dl' = ''failed''))))"
proof (cases ev)
  case (Sweep ks)
  then have s': "downloads s' = cleanInvalidDownloads (files s) ks (downloads s)"
    using st by (auto split: if_splits)
  show ?thesis
    unfolding s' using sweep_keeps [of "files s" ks "downloads s" i] by auto
next
  case (RemoveFailed ks)
  then have s': "downloads s' = remove_failed ks (downloads s)"
    using st by (auto split: if_splits)
  show ?thesis
    unfolding s' using remove_failed_keeps [of ks "downloads s" i] by auto
next
  case (Insert now url env)
  let ?i = "Sprintf_d now"
  have fresh: "downloads s ?i = None"
    and s': "downloads s' = (downloads s)(?i \<mapsto> new_download ?i url)"
    using st new Insert by (auto simp: Let_def)
  show ?thesis
    unfolding s' using fresh by (auto simp: new_download_def)
next
  case (Advance k)
  then obtain j e es s1 where k: "k < length (goroutines s)"
    and g: "goroutines s ! k = (j, e # es)" and ex: "exec e s = Some s1"
    and s': "s' = s1\<lparr>goroutines := (goroutines s)[k := (j, es)]\<rparr>"
    using st by (auto split: if_splits prod.splits list.splits option.splits)
  obtain dl dl' where others: "\<And>i. i \<noteq> j \<Longrightarrow> downloads s1 i = downloads s i"
    and dl: "downloads s j = Some dl" "Status dl = ''in_progress''"
    and dl': "downloads s1 j = Some dl'"
      "Status dl' = ''in_progress'' \<or>
       es = [] \<and> (Status dl' = ''completed'' \<or> Status dl' = ''failed'')"
    using advance_result [OF inv k g] ex by auto
  have ds: "downloads s' = downloads s1" by (simp add: s')
  show ?thesis
  proof (cases "i = j")
    case True
    then show ?thesis unfolding ds using dl dl' by auto
  next
    case False
    then show ?thesis unfolding ds using others [of i] by (cases "downloads s i") auto
  qed
next
  case (External fs)
  then have "downloads s' = downloads s" using st by auto
  then show ?thesis by (cases "downloads s i") auto
qed


text \<open>
  As long as every submission has drawn a new id, a goroutine of the running program
  never dereferences a nil pointer: its record is in the table as long as it has effects
  left.
\<close>

lemma advance_never_panics:
  assumes "run pf evs (initial fs) = Some s" and "new_ids pf evs (initial fs)"
    and "k < length (goroutines s)" and "goroutines s ! k = (j, e # es)"
  shows "exec e s \<noteq> None"
  using advance_result [OF invariant_run [OF invariant_initial assms(1,2)] assms(3,4)] by auto

text \<open>The sample program.\<close>

lemma one_running_run:
  "run sample_platform [Insert 7 ''http://x/a.zip'' unreachable] (initial no_files) =
     Some one_running"
  by (simp add: Sprintf_d_7 initial_def unreachable_effects one_running_def Let_def)

lemma one_failed_step: "step sample_platform (Advance 0) one_running = Some one_failed"
  by (simp add: one_running_def one_failed_def updateStatus_def)

subsection \<open>Clock readings that repeat, and submissions that race\<close>

lemma Sprintf_d_8: "Sprintf_d 8 = ''8''"
  by (simp add: Sprintf_d_def digits.simps)

lemma empty_file_effects:
  "startDownload sample_platform (answered empty_file renamed) ''7'' ''http://x/a.zip'' =
     ([MkdirAll ''/d/compressed'' True, Create ''/d/temp/a.zip.goloadtemp'',
       PublishFile ''7'' ''a.zip'' ''/d/compressed/a.zip'' 0,
       Rename ''/d/temp/a.zip.goloadtemp'' ''/d/compressed/a.zip'' renamed,
       UpdateStatus ''7'' ''completed''], True)"
proof -
  have resp: "http_Get (answered empty_file renamed) = GetResponse empty_file"
    and ok: "create_ok (answered empty_file renamed)"
    by (simp_all add: answered_def)
  have s: "stream sample_platform ''7'' 0 0 [sample_read 0 EOF] = ([], Break)"
    by (simp add: sample_read_def)
  have r: "Body empty_file = [sample_read 0 EOF]" "ContentLength empty_file = 0"
    "ContentType empty_file = []"
    by (simp_all add: empty_file_def)
  show ?thesis
    unfolding startDownload_response [OF resp ok] r s sample_paths
    by (simp add: answered_def)
qed

lemma same_reading_run:
  "run sample_platform same_reading (initial no_files) = Some shared_failed"
  unfolding same_reading_def
  by (simp add: Sprintf_d_7 initial_def unreachable_effects empty_file_effects
        shared_failed_def Let_def assign_def updateStatus_def new_download_def)

lemma same_reading_old_id: "\<not> new_ids sample_platform same_reading (initial no_files)"
  unfolding same_reading_def
  by (simp add: Sprintf_d_7 initial_def Let_def)

lemma two_records_run:
  "run sample_platform
     [Insert 7 ''http://x/b'' unreachable, Insert 8 ''http://x/b'' unreachable]
     (initial no_files) = Some two_records"
  by (simp add: Sprintf_d_7 Sprintf_d_8 initial_def unreachable_effects two_records_def Let_def)

text \<open>
  On the table they leave, which of the two ids a later submission of the URL is given
  depends on the order of \<^verbatim>\<open>range\<close>; and the table is not in order.
\<close>

lemma two_records_swept:
  "cleanInvalidDownloads no_files [''7'', ''8''] (downloads two_records) = downloads two_records"
  by (rule ext) (simp add: two_records_def new_download_def)

lemma two_records_reply:
  "fst (addDownload no_files [''7'', ''8''] [''7'', ''8''] 9 (Some ''http://x/b'')
          (downloads two_records)) = Reply 200 (MessageId ''Download already exists'' ''7'')"
  "fst (addDownload no_files [''7'', ''8''] [''8'', ''7''] 9 (Some ''http://x/b'')
          (downloads two_records)) = Reply 200 (MessageId ''Download already exists'' ''8'')"
  unfolding addDownload_def Let_def two_records_swept
  by (simp_all add: two_records_def new_download_def)

lemma two_records_not_ok: "\<not> registry_ok (downloads two_records)"
proof
  assume ok: "registry_ok (downloads two_records)"
  have a: "downloads two_records ''7'' = Some (new_download ''7'' ''http://x/b'')"
    and b: "downloads two_records ''8'' = Some (new_download ''8'' ''http://x/b'')"
    by (simp_all add: two_records_def)
  have "URL (new_download ''8'' ''http://x/b'') = URL (new_download ''7'' ''http://x/b'')
        \<longrightarrow> ''8'' = ''7''"
    using ok a b unfolding registry_ok_def by blast
  then show False by (simp add: new_download_def)
qed

text \<open>
  In the running program every record is stored under its own \<^verbatim>\<open>ID\<close>, whatever the
  clock reads: line 80 stores it so, and no block changes the \<^verbatim>\<open>ID\<close> of a record.
\<close>

lemma keyed_sub:
  assumes "keyed ds" and "\<And>k dl. ds' k = Some dl \<Longrightarrow> ds k = Some dl"
  shows "keyed ds'"
  using assms unfolding keyed_def by blast

lemma keyed_assign:
  assumes "keyed ds" and "assign i f ds = Some ds'" and "\<And>dl. ID (f dl) = ID dl"
  shows "keyed ds'"
proof -
  obtain dl0 where dl0: "ds i = Some dl0" and ds': "ds' = ds(i \<mapsto> f dl0)"
    using assms(2) by (auto simp: assign_def split: option.splits)
  have "ID dl0 = i" using assms(1) dl0 unfolding keyed_def by blast
  then have "ID (f dl0) = i" using assms(3) by simp
  then show ?thesis
    using assms(1) unfolding keyed_def ds' by (simp split: if_splits)
qed

lemma keyed_exec:
  assumes "keyed (downloads st)" and "exec e st = Some st'"
  shows "keyed (downloads st')"
proof (cases e)
  case (UpdateStatus i s)
  show ?thesis
  proof (cases "assign i (\<lambda>dl. dl\<lparr>Status := s\<rparr>) (downloads st)")
    case None
    then show ?thesis using assms UpdateStatus by (auto simp: updateStatus_assign)
  next
    case (Some ds')
    have "keyed ds'" using assms(1) Some by (rule keyed_assign) simp
    then show ?thesis using assms(2) UpdateStatus Some by (auto simp: updateStatus_assign)
  qed
next
  case (PublishFile i a b c)
  then obtain ds' where a: "assign i (\<lambda>dl. dl\<lparr>Filename := a, Filepath := b, SizeTotal := c\<rparr>) (downloads st) = Some ds'"
    and st': "st' = st\<lparr>downloads := ds'\<rparr>"
    using assms(2) by (auto split: option.splits)
  have "keyed ds'" using assms(1) a by (rule keyed_assign) simp
  then show ?thesis by (simp add: st')
next
  case (PublishSpeed i a)
  then obtain ds' where a: "assign i (\<lambda>dl. dl\<lparr>Speed := a\<rparr>) (downloads st) = Some ds'"
    and st': "st' = st\<lparr>downloads := ds'\<rparr>"
    using assms(2) by (auto split: option.splits)
  have "keyed ds'" using assms(1) a by (rule keyed_assign) simp
  then show ?thesis by (simp add: st')
next
  case (PublishProgress i a b)
  then obtain ds' where a: "assign i (\<lambda>dl. dl\<lparr>SizeCurrent := a, Progress := b\<rparr>) (downloads st) = Some ds'"
    and st': "st' = st\<lparr>downloads := ds'\<rparr>"
    using assms(2) by (auto split: option.splits)
  have "keyed ds'" using assms(1) a by (rule keyed_assign) simp
  then show ?thesis by (simp add: st')
qed (use assms in \<open>auto split: if_splits\<close>)

lemma keyed_step:
  assumes k: "keyed (downloads s)" and st: "step pf ev s = Some s'"
  shows "keyed (downloads s')"
proof (cases ev)
  case (Sweep ks)
  then have s': "downloads s' = cleanInvalidDownloads (files s) ks (downloads s)"
    using st by (auto split: if_splits)
  show ?thesis unfolding s' using k by (rule keyed_sub) (rule cleanInvalidDownloads_sub)
next
  case (RemoveFailed ks)
  then have s': "downloads s' = remove_failed ks (downloads s)"
    using st by (auto split: if_splits)
  show ?thesis unfolding s' using k by (rule keyed_sub) (rule remove_failed_sub)
next
  case (Insert now url env)
  then have s': "downloads s' =
      (downloads s)(Sprintf_d now \<mapsto> new_download (Sprintf_d now) url)"
    using st by (auto simp: Let_def)
  have "ID (new_download (Sprintf_d now) url) = Sprintf_d now"
    by (simp add: new_download_def)
  then show ?thesis
    unfolding s' using k unfolding keyed_def by (simp split: if_splits)
next
  case (Advance a)
  then obtain j e es s1 where ex: "exec e s = Some s1"
    and s': "s' = s1\<lparr>goroutines := (goroutines s)[a := (j, es)]\<rparr>"
    using st by (auto split: if_splits prod.splits list.splits option.splits)
  have "keyed (downloads s1)" using k ex by (rule keyed_exec)
  then show ?thesis by (simp add: s')
next
  case (External fs)
  then have "downloads s' = downloads s" using st by auto
  then show ?thesis using k by simp
qed

lemma keyed_run: "keyed (downloads s) \<Longrightarrow> run pf evs s = Some s' \<Longrightarrow> keyed (downloads s')"
proof (induction evs arbitrary: s)
  case Nil
  then show ?case by simp
next
  case (Cons ev evs)
  then obtain s1 where s1: "step pf ev s = Some s1" "run pf evs s1 = Some s'"
    by (auto split: option.splits)
  show ?case using Cons.IH [OF keyed_step [OF Cons.prems(1) s1(1)] s1(2)] .
qed

lemma stored_under_ID:
  assumes "run pf evs (initial fs) = Some s" and "downloads s k = Some dl"
  shows "ID dl = k"
proof -
  have "keyed (downloads (initial fs))" by (simp add: keyed_def initial_def)
  then have "keyed (downloads s)" using assms(1) by (rule keyed_run)
  then show ?thesis using assms(2) unfolding keyed_def by blast
qed

subsection \<open>The categorizer\<close>

text \<open>
  C9. The category is a function of the file name and the declared MIME type alone (and
  of the library's tables): an empty declared type is first replaced by the type the
  library gives for the extension of the file name; then \<^verbatim>\<open>video/mp4\<close> and
  \<^verbatim>\<open>video/x-matroska\<close> give \<^verbatim>\<open>videos\<close>, \<^verbatim>\<open>audio/mpeg\<close>, \<^verbatim>\<open>audio/wav\<close> and \<^verbatim>\<open>audio/flac\<close>
  give \<^verbatim>\<open>audio\<close>, \<^verbatim>\<open>application/zip\<close> and \<^verbatim>\<open>application/x-rar-compressed\<close> give
  \<^verbatim>\<open>compressed\<close>, and every other type gives \<^verbatim>\<open>unknown\<close>. \<^verbatim>\<open>getCategoryDir\<close> returns
  the directory of that category under the download directory, and creating that
  directory is all it does.
\<close>

theorem categorizer_table:
  "category pf filename mimeType =
     (let m = (if mimeType = '''' then mime_TypeByExtension pf (filepath_Ext pf filename)
               else mimeType)
      in if m \<in> {''video/mp4'', ''video/x-matroska''} then ''videos''
         else if m \<in> {''audio/mpeg'', ''audio/wav'', ''audio/flac''} then ''audio''
         else if m \<in> {''application/zip'', ''application/x-rar-compressed''} then ''compressed''
         else ''unknown'')
   \<and> getCategoryDir pf ok filename mimeType =
       (filepath_Join pf [downloadDir pf, category pf filename mimeType],
        [MkdirAll (filepath_Join pf [downloadDir pf, category pf filename mimeType]) ok])"
  by (simp add: category_def getCategoryDir_def Let_def)

subsection \<open>The invalidation sweep and the listing\<close>

text \<open>
  C4. Whatever the order of its loop, the sweep removes a record exactly when its status
  is \<^verbatim>\<open>completed\<close>, its file path is not empty and \<^verbatim>\<open>os.Stat\<close> reports that the path does
  not exist; every other record stays as it is. \<^verbatim>\<open>getDownloads\<close> returns the records of
  the swept table, one for each key it visits: a completed record whose file is gone is
  not among them, and a record that is not completed (failed, in progress) is.
\<close>

theorem sweep_removes_exactly_invalid:
  assumes "range_order ks1 ds" and "range_order ks2 (cleanInvalidDownloads fs ks1 ds)"
  shows "(\<forall>k. cleanInvalidDownloads fs ks1 ds k =
            (case ds k of
               None \<Rightarrow> None
             | Some dl \<Rightarrow>
                 if Status dl = ''completed'' \<and> Filepath dl \<noteq> '''' \<and>
                    fs (Filepath dl) = StatNotExist
                 then None else Some dl))
       \<and> (\<exists>rs. getDownloads fs ks1 ks2 ds =
                 (Reply 200 (Records rs), cleanInvalidDownloads fs ks1 ds) \<and>
               map Some rs = map (cleanInvalidDownloads fs ks1 ds) ks2 \<and>
               (\<forall>k dl. ds k = Some dl \<longrightarrow> Status dl = ''completed'' \<longrightarrow> Filepath dl \<noteq> '''' \<longrightarrow>
                  fs (Filepath dl) = StatNotExist \<longrightarrow> k \<notin> set ks2) \<and>
               (\<forall>k dl. ds k = Some dl \<longrightarrow> Status dl \<noteq> ''completed'' \<longrightarrow>
                  k \<in> set ks2 \<and> dl \<in> set rs))"
proof -
  let ?ds' = "cleanInvalidDownloads fs ks1 ds"
  have dom1: "set ks1 = dom ds" and dom2: "set ks2 = dom ?ds'"
    using assms by (simp_all add: range_order_def)
  have sweep: "?ds' k =
            (case ds k of
               None \<Rightarrow> None
             | Some dl \<Rightarrow>
                 if Status dl = ''completed'' \<and> Filepath dl \<noteq> '''' \<and>
                    fs (Filepath dl) = StatNotExist
                 then None else Some dl)" for k
    using dom1 by (auto simp: cleanInvalidDownloads_apply split: option.splits)
  have list: "map Some (snapshot ks2 ?ds') = map ?ds' ks2"
    using dom2 by (simp add: snapshot_range)
  have gone: "k \<notin> set ks2"
    if "ds k = Some dl" "Status dl = ''completed''" "Filepath dl \<noteq> ''''"
       "fs (Filepath dl) = StatNotExist" for k dl
    using that dom2 sweep [of k] by (auto simp: dom_def)
  have kept: "k \<in> set ks2 \<and> dl \<in> set (snapshot ks2 ?ds')"
    if "ds k = Some dl" "Status dl \<noteq> ''completed''" for k dl
  proof -
    have k: "?ds' k = Some dl" using that sweep [of k] by simp
    then have "k \<in> set ks2" using dom2 by (auto simp: dom_def)
    then have "Some dl \<in> set (map ?ds' ks2)" using k by force
    then have "Some dl \<in> set (map Some (snapshot ks2 ?ds'))" using list by simp
    then show ?thesis using \<open>k \<in> set ks2\<close> by auto
  qed
  show ?thesis
    using sweep list gone kept by (simp add: getDownloads_def Let_def)
qed

theorem sweep_removes_exactly_invalid_witness:
  "range_order [''1'', ''2''] table2 \<and>
   range_order [''2''] (cleanInvalidDownloads no_files [''1'', ''2''] table2) \<and>
   cleanInvalidDownloads no_files [''1'', ''2''] table2 ''1'' = None \<and>
   cleanInvalidDownloads no_files [''1'', ''2''] table2 ''2'' = Some broken \<and>
   fst (getDownloads no_files [''1'', ''2''] [''2''] table2) = Reply 200 (Records [broken])"
proof -
  note sweep = sweep_removes_exactly_invalid [OF table2_order table2_swept_order, THEN conjunct1]
  have a: "cleanInvalidDownloads no_files [''1'', ''2''] table2 ''1'' = None"
    using sweep [THEN spec, of "''1''"]
    by (simp add: table2_def finished_def no_files_def)
  have b: "cleanInvalidDownloads no_files [''1'', ''2''] table2 ''2'' = Some broken"
    using sweep [THEN spec, of "''2''"]
    by (simp add: table2_def broken_def new_download_def)
  have c: "fst (getDownloads no_files [''1'', ''2''] [''2''] table2) = Reply 200 (Records [broken])"
    unfolding getDownloads_def Let_def table2_swept by simp
  show ?thesis
    using table2_order table2_swept_order a b c by simp
qed

subsection \<open>Clearing failed downloads\<close>

text \<open>
  C3, as the claim states it, fails: \<^verbatim>\<open>clearFailed\<close> begins with the sweep, so a completed
  record whose file is gone is removed although its status is not \<^verbatim>\<open>failed\<close>.
\<close>

theorem clearFailed_drops_completed_counterexample:
  "range_order [''1'', ''2''] table2 \<and>
   range_order [''2''] (cleanInvalidDownloads no_files [''1'', ''2''] table2) \<and>
   table2 ''1'' = Some finished \<and> Status finished \<noteq> ''failed'' \<and>
   snd (clearFailed no_files [''1'', ''2''] [''2''] table2) ''1'' = None"
  using table2_order table2_swept_order
  by (simp add: table2_cleared) (simp add: table2_def finished_def)

text \<open>
  C3, amended. After \<^verbatim>\<open>clearFailed\<close> the table has no record with status \<^verbatim>\<open>failed\<close> and
  no record that was not there before; every record whose status is not \<^verbatim>\<open>failed\<close> and
  that the sweep does not remove (it is not a completed record with a file path that
  \<^verbatim>\<open>os.Stat\<close> reports missing) is still there, unchanged.
\<close>

theorem clearFailed_after_sweep:
  assumes "range_order ks1 ds" and "range_order ks2 (cleanInvalidDownloads fs ks1 ds)"
  shows "(\<forall>k dl. snd (clearFailed fs ks1 ks2 ds) k = Some dl \<longrightarrow>
            Status dl \<noteq> ''failed'' \<and> ds k = Some dl)
       \<and> (\<forall>k dl. ds k = Some dl \<longrightarrow> Status dl \<noteq> ''failed'' \<longrightarrow>
            \<not> (Status dl = ''completed'' \<and> Filepath dl \<noteq> '''' \<and>
               fs (Filepath dl) = StatNotExist) \<longrightarrow>
            snd (clearFailed fs ks1 ks2 ds) k = Some dl)"
proof -
  let ?ds' = "cleanInvalidDownloads fs ks1 ds"
  have dom1: "set ks1 = dom ds" and dom2: "set ks2 = dom ?ds'"
    using assms by (simp_all add: range_order_def)
  have swept: "?ds' k =
     (case ds k of
        None \<Rightarrow> None
      | Some dl \<Rightarrow>
          if Status dl = ''completed'' \<and> Filepath dl \<noteq> '''' \<and> fs (Filepath dl) = StatNotExist
          then None else Some dl)" for k
    using dom1 by (auto simp: cleanInvalidDownloads_apply split: option.splits)
  have cleared: "snd (clearFailed fs ks1 ks2 ds) k =
     (case ?ds' k of
        None \<Rightarrow> None
      | Some dl \<Rightarrow> if Status dl = ''failed'' then None else Some dl)" for k
    using dom2 by (auto simp: clearFailed_def remove_failed_apply split: option.splits)
  show ?thesis
    by (auto simp: cleared swept split: option.splits if_splits)
qed

theorem clearFailed_after_sweep_witness:
  "range_order [''1'', ''2''] table2 \<and>
   range_order [''1'', ''2''] (cleanInvalidDownloads one_file [''1'', ''2''] table2) \<and>
   table2 ''1'' = Some finished \<and> table2 ''2'' = Some broken \<and>
   snd (clearFailed one_file [''1'', ''2''] [''1'', ''2''] table2) ''1'' = Some finished \<and>
   snd (clearFailed one_file [''1'', ''2''] [''1'', ''2''] table2) ''2'' \<noteq> Some broken"
proof -
  note cleared = clearFailed_after_sweep [OF table2_order table2_kept_order]
  have t1: "table2 ''1'' = Some finished" and t2: "table2 ''2'' = Some broken"
    by (simp_all add: table2_def)
  have st: "Status broken = ''failed''"
    by (simp add: broken_def)
  have ok: "Status finished \<noteq> ''failed''" and here: "one_file (Filepath finished) \<noteq> StatNotExist"
    by (simp_all add: finished_def one_file_def)
  have a: "snd (clearFailed one_file [''1'', ''2''] [''1'', ''2''] table2) ''1'' = Some finished"
    using cleared [THEN conjunct2, THEN spec, of "''1''", THEN spec, of finished] t1 ok here
    by blast
  have b: "snd (clearFailed one_file [''1'', ''2''] [''1'', ''2''] table2) ''2'' \<noteq> Some broken"
    using cleared [THEN conjunct1, THEN spec, of "''2''", THEN spec, of broken] st by blast
  show ?thesis
    using table2_order table2_kept_order t1 t2 a b by simp
qed

subsection \<open>Submitting a URL again\<close>

text \<open>
  C1, as the claim states it, fails: \<^verbatim>\<open>addDownload\<close> begins with the sweep, so when the
  first submission is completed and its file is gone, the record is removed, and the
  second submission of the URL gets a new id, a new record and a new goroutine.
\<close>

theorem addDownload_resubmits_swept_counterexample:
  "registry_ok table1 \<and> range_order [''1''] table1 \<and>
   range_order [] (cleanInvalidDownloads no_files [''1''] table1) \<and>
   table1 ''1'' = Some finished \<and> URL finished = ''http://x/a.zip'' \<and>
   Status finished = ''completed'' \<and>
   fst (addDownload no_files [''1''] [] 7 (Some ''http://x/a.zip'') table1) =
     Reply 200 (MessageId ''Download started'' ''7'') \<and>
   fst (snd (addDownload no_files [''1''] [] 7 (Some ''http://x/a.zip'') table1)) ''1'' = None \<and>
   fst (snd (addDownload no_files [''1''] [] 7 (Some ''http://x/a.zip'') table1)) ''7'' =
     Some (new_download ''7'' ''http://x/a.zip'') \<and>
   snd (snd (addDownload no_files [''1''] [] 7 (Some ''http://x/a.zip'') table1)) =
     Some (''7'', ''http://x/a.zip'')"
  using table1_ok table1_order table1_swept_order
  by (simp add: table1_resubmit) (simp add: table1_def finished_def)

text \<open>
  C1, amended. Let the table hold, under the key \<open>i\<close>, a record with the submitted URL
  that the sweep at the start of the submission does not remove: it is not a completed
  record with a file path that \<^verbatim>\<open>os.Stat\<close> reports missing. Nothing else is asked of the
  table. Then the submission replies that the download already exists, with the \<^verbatim>\<open>ID\<close> of
  a record of the swept table that has the URL (line 71 replies \<^verbatim>\<open>dl.ID\<close>, the id that the
  submission which stored the record replied with); the table after it is the swept
  table, which still holds the record under \<open>i\<close> unchanged and has no key the table did
  not have; and no goroutine is started. When no record under another key of the swept
  table has the URL, the id in the reply is the \<^verbatim>\<open>ID\<close> of the record under \<open>i\<close>. When two
  submissions that raced have left two records with the URL, it is the \<^verbatim>\<open>ID\<close> of the one
  that \<^verbatim>\<open>range\<close> visits first. In the running program the \<^verbatim>\<open>ID\<close> of a record is the key
  it is stored under.
\<close>

theorem addDownload_existing_url:
  assumes "range_order ks2 (cleanInvalidDownloads fs ks1 ds)"
    and "ds i = Some dl" and "URL dl = url"
    and "\<not> (Status dl = ''completed'' \<and> Filepath dl \<noteq> '''' \<and> fs (Filepath dl) = StatNotExist)"
  shows "(\<exists>j dl'. cleanInvalidDownloads fs ks1 ds j = Some dl' \<and> URL dl' = url \<and>
            addDownload fs ks1 ks2 now (Some url) ds =
              (Reply 200 (MessageId ''Download already exists'' (ID dl')),
               cleanInvalidDownloads fs ks1 ds, None))
       \<and> ((\<forall>j dl'. cleanInvalidDownloads fs ks1 ds j = Some dl' \<longrightarrow> URL dl' = url \<longrightarrow> j = i) \<longrightarrow>
            addDownload fs ks1 ks2 now (Some url) ds =
              (Reply 200 (MessageId ''Download already exists'' (ID dl)),
               cleanInvalidDownloads fs ks1 ds, None))
       \<and> cleanInvalidDownloads fs ks1 ds i = Some dl
       \<and> dom (cleanInvalidDownloads fs ks1 ds) \<subseteq> dom ds"
proof -
  let ?ds1 = "cleanInvalidDownloads fs ks1 ds"
  have dom2: "set ks2 = dom ?ds1" using assms(1) by (simp add: range_order_def)
  have here: "?ds1 i = Some dl"
    using assms(2,4) by (auto simp: cleanInvalidDownloads_apply)
  have sub: "dom ?ds1 \<subseteq> dom ds"
    using cleanInvalidDownloads_sub by (fastforce simp: dom_def)
  have "find_url url ks2 ?ds1 \<noteq> None"
    using here dom2 assms(3) by (auto simp: find_url_None dom_def)
  then obtain r where r: "find_url url ks2 ?ds1 = Some r" by blast
  then obtain j dl' where j: "?ds1 j = Some dl'" "URL dl' = url" "ID dl' = r"
    using find_url_Some by blast
  have reply: "addDownload fs ks1 ks2 now (Some url) ds =
      (Reply 200 (MessageId ''Download already exists'' (ID dl')), ?ds1, None)"
    using r j(3) by (simp add: addDownload_def Let_def)
  have one: "\<exists>j dl'. ?ds1 j = Some dl' \<and> URL dl' = url \<and>
      addDownload fs ks1 ks2 now (Some url) ds =
        (Reply 200 (MessageId ''Download already exists'' (ID dl')), ?ds1, None)"
    using j(1,2) reply by blast
  have only: "addDownload fs ks1 ks2 now (Some url) ds =
      (Reply 200 (MessageId ''Download already exists'' (ID dl)), ?ds1, None)"
    if "\<forall>j dl'. ?ds1 j = Some dl' \<longrightarrow> URL dl' = url \<longrightarrow> j = i"
  proof -
    have "j = i" using that j(1,2) by blast
    then have "dl' = dl" using j(1) here by simp
    then show ?thesis using reply by simp
  qed
  show ?thesis using one only here sub by blast
qed

theorem addDownload_existing_url_witness:
  "range_order [''1''] (cleanInvalidDownloads one_file [''1''] table1) \<and>
   table1 ''1'' = Some finished \<and> URL finished = ''http://x/a.zip'' \<and>
   Status finished = ''completed'' \<and> one_file (Filepath finished) = StatOk \<and>
   addDownload one_file [''1''] [''1''] 7 (Some ''http://x/a.zip'') table1 =
     (Reply 200 (MessageId ''Download already exists'' ''1''),
      cleanInvalidDownloads one_file [''1''] table1, None) \<and>
   cleanInvalidDownloads one_file [''1''] table1 ''1'' = Some finished"
proof -
  have t: "table1 ''1'' = Some finished" by (simp add: table1_def)
  have u: "URL finished = ''http://x/a.zip''" by (simp add: finished_def)
  have c: "Status finished = ''completed''" by (simp add: finished_def)
  have f: "one_file (Filepath finished) = StatOk" by (simp add: finished_def one_file_def)
  then have n: "\<not> (Status finished = ''completed'' \<and> Filepath finished \<noteq> '''' \<and>
                   one_file (Filepath finished) = StatNotExist)"
    by simp
  have alone: "\<forall>j dl'. cleanInvalidDownloads one_file [''1''] table1 j = Some dl' \<longrightarrow>
                 URL dl' = ''http://x/a.zip'' \<longrightarrow> j = ''1''"
    unfolding table1_kept by (simp add: table1_def)
  have i: "ID finished = ''1''" by (simp add: finished_def)
  from addDownload_existing_url [OF table1_kept_order t u n, of 7] alone i
  have "addDownload one_file [''1''] [''1''] 7 (Some ''http://x/a.zip'') table1 =
          (Reply 200 (MessageId ''Download already exists'' ''1''),
           cleanInvalidDownloads one_file [''1''] table1, None) \<and>
        cleanInvalidDownloads one_file [''1''] table1 ''1'' = Some finished"
    by simp
  then show ?thesis
    using table1_kept_order t u c f by simp
qed


subsection \<open>A request that fails\<close>

text \<open>
  C2. When \<^verbatim>\<open>http.Get\<close> returns an error, all the goroutine does is \<^verbatim>\<open>updateStatus\<close> with
  \<^verbatim>\<open>failed\<close>, and then it returns: run on a table that has the record, it changes the
  status of that record and nothing else, neither another field, nor another record, nor
  a file. For the record as \<^verbatim>\<open>addDownload\<close> created it, the sizes stay 0 and the file name
  and the file path stay empty.
\<close>

theorem get_failure_only_sets_failed:
  assumes "http_Get env = GetError" and "downloads st i = Some dl"
  shows "startDownload pf env i url = ([UpdateStatus i ''failed''], True) \<and>
         run_effects (fst (startDownload pf env i url)) st =
           Some (st\<lparr>downloads := (downloads st)(i \<mapsto> dl\<lparr>Status := ''failed''\<rparr>)\<rparr>) \<and>
         (new_download i url)\<lparr>Status := ''failed''\<rparr> =
           \<lparr>ID = i, URL = url, Filename = '''', Filepath = '''', Status = ''failed'',
            SizeCurrent = 0, SizeTotal = 0, Progress = Number False 0, Speed = 0\<rparr>"
  using assms by (simp add: startDownload_def updateStatus_def new_download_def)

theorem get_failure_only_sets_failed_witness:
  "http_Get unreachable = GetError \<and>
   downloads started ''7'' = Some (new_download ''7'' ''http://x/a.zip'') \<and>
   run_effects (fst (startDownload sample_platform unreachable ''7'' ''http://x/a.zip'')) started =
     Some (started\<lparr>downloads := (downloads started)(''7'' \<mapsto>
       \<lparr>ID = ''7'', URL = ''http://x/a.zip'', Filename = '''', Filepath = '''',
        Status = ''failed'', SizeCurrent = 0, SizeTotal = 0, Progress = Number False 0,
        Speed = 0\<rparr>)\<rparr>)"
proof -
  have g: "http_Get unreachable = GetError" by (simp add: unreachable_def)
  have d: "downloads started ''7'' = Some (new_download ''7'' ''http://x/a.zip'')"
    by (simp add: started_def)
  note th = get_failure_only_sets_failed [OF g d, of sample_platform "''http://x/a.zip''"]
  show ?thesis
    using g d th [THEN conjunct2, THEN conjunct1] th [THEN conjunct2, THEN conjunct2]
    by (simp only: simp_thms)
qed


subsection \<open>The total size\<close>

text \<open>
  C6, as the claim states it, fails: the goroutine publishes \<^verbatim>\<open>resp.ContentLength\<close> as it
  is (line 108), and the library sets that field to -1, not to 0, for a response that
  declares no length.
\<close>

theorem size_total_unknown_counterexample:
  "http_Get (answered no_length True) = GetResponse no_length \<and>
   declared_length no_length = None \<and>
   map_option (\<lambda>st. map_option SizeTotal (downloads st ''7''))
     (run_effects (fst (startDownload sample_platform (answered no_length True) ''7''
        ''http://x/a.zip'')) started) = Some (Some (- 1))"
proof -
  have "map_option (\<lambda>st. map_option SizeTotal (downloads st ''7''))
     (run_effects (fst (startDownload sample_platform (answered no_length True) ''7''
        ''http://x/a.zip'')) started) = Some (Some (- 1))"
    using no_length_record [of True]
    by (cases "run_effects (fst (startDownload sample_platform (answered no_length True) ''7''
        ''http://x/a.zip'')) started") auto
  then show ?thesis
    by (simp add: answered_def declared_length_def no_length_def)
qed

text \<open>
  C6, amended. For every response for which the temporary file can be created, the
  goroutine, run on a table that has the record, publishes the \<^verbatim>\<open>ContentLength\<close> of the
  response as the total size, and later effects leave it as it is: the declared length
  when the response declares one, and -1 when it declares none. With it the goroutine
  publishes the file name and the file path.
\<close>

theorem size_total_is_content_length:
  assumes "http_Get env = GetResponse resp" and "create_ok env"
    and "downloads st i = Some dl"
  shows "\<exists>st' dl'. run_effects (fst (startDownload pf env i url)) st = Some st' \<and>
           downloads st' i = Some dl' \<and>
           SizeTotal dl' = ContentLength resp \<and>
           SizeTotal dl' = (case declared_length resp of None \<Rightarrow> - 1 | Some n \<Rightarrow> n) \<and>
           Filename dl' = getFilename pf url \<and>
           Filepath dl' = finalPath pf url (ContentType resp)"
proof -
  obtain st' dl1 where run: "run_effects (fst (startDownload pf env i url)) st = Some st'"
    and d: "downloads st' =
        (downloads st)(i \<mapsto>
           (if snd (stream pf i (ContentLength resp) 0 (Body resp)) = Break
            then dl1\<lparr>Status := ''completed''\<rparr> else dl1))"
    and fields: "Filename dl1 = getFilename pf url"
      "Filepath dl1 = finalPath pf url (ContentType resp)" "SizeTotal dl1 = ContentLength resp"
    using worker_result [OF assms, of pf url] by blast
  define dl' where "dl' = (if snd (stream pf i (ContentLength resp) 0 (Body resp)) = Break
            then dl1\<lparr>Status := ''completed''\<rparr> else dl1)"
  have here: "downloads st' i = Some dl'" by (simp add: d dl'_def)
  have f: "Filename dl' = getFilename pf url"
    "Filepath dl' = finalPath pf url (ContentType resp)" "SizeTotal dl' = ContentLength resp"
    using fields by (simp_all add: dl'_def)
  have "SizeTotal dl' = (case declared_length resp of None \<Rightarrow> - 1 | Some n \<Rightarrow> n)"
    using f(3) by (simp add: declared_length_def)
  then show ?thesis using run here f by blast
qed

theorem size_total_is_content_length_witness:
  "http_Get (answered three_bytes True) = GetResponse three_bytes \<and>
   create_ok (answered three_bytes True) \<and>
   downloads started ''7'' = Some (new_download ''7'' ''http://x/a.zip'') \<and>
   (\<exists>st' dl'. run_effects (fst (startDownload sample_platform (answered three_bytes True) ''7''
                   ''http://x/a.zip'')) started = Some st' \<and>
      downloads st' ''7'' = Some dl' \<and> SizeTotal dl' = 3 \<and> Filename dl' = ''a.zip'' \<and>
      Filepath dl' = ''/d/compressed/a.zip'')"
proof -
  have g: "http_Get (answered three_bytes True) = GetResponse three_bytes"
    and c: "create_ok (answered three_bytes True)"
    by (simp_all add: answered_def)
  have d: "downloads started ''7'' = Some (new_download ''7'' ''http://x/a.zip'')"
    by (simp add: started_def)
  have r: "ContentLength three_bytes = 3" "ContentType three_bytes = []"
    by (simp_all add: three_bytes_def)
  from size_total_is_content_length [OF g c d, of sample_platform "''http://x/a.zip''"]
  have "\<exists>st' dl'. run_effects (fst (startDownload sample_platform (answered three_bytes True) ''7''
                   ''http://x/a.zip'')) started = Some st' \<and>
      downloads st' ''7'' = Some dl' \<and> SizeTotal dl' = 3 \<and> Filename dl' = ''a.zip'' \<and>
      Filepath dl' = ''/d/compressed/a.zip''"
    unfolding r sample_paths by blast
  then show ?thesis using g c d by (simp only: simp_thms)
qed


subsection \<open>A body read to its end\<close>

text \<open>
  C10. Let the body be read to its end: reads without error, then a read that returns
  \<^verbatim>\<open>io.EOF\<close>, with every write succeeding. Then the goroutine, run on a table that has the
  record, returns and leaves the record with status \<^verbatim>\<open>completed\<close>, whether \<^verbatim>\<open>os.Rename\<close>
  succeeds or not. When it does not, the files are left as they were once the temporary
  file was created, so that no file is at the file path of the record unless one was
  there before.
\<close>

theorem completed_whatever_rename_does:
  assumes "http_Get env = GetResponse resp" and "create_ok env"
    and "downloads st i = Some dl"
    and "Body resp = rs @ r # rest"
    and "\<forall>x\<in>set rs. read_err x = NoError \<and> (0 < read_n x \<longrightarrow> write_ok x)"
    and "read_err r = EOF" and "0 < read_n r \<longrightarrow> write_ok r"
  shows "\<exists>st' dl'. run_effects (fst (startDownload pf env i url)) st = Some st' \<and>
           snd (startDownload pf env i url) \<and>
           downloads st' i = Some dl' \<and>
           Status dl' = ''completed'' \<and>
           Filepath dl' = finalPath pf url (ContentType resp) \<and>
           files st' =
             (let created = (if mkdir_ok env
                             then (files st)(categoryDir pf url (ContentType resp) := StatOk)
                             else files st)(tempPath pf url := StatOk)
              in if rename_ok env
                 then created(tempPath pf url := StatNotExist,
                              finalPath pf url (ContentType resp) := StatOk)
                 else created)"
proof -
  have brk: "snd (stream pf i (ContentLength resp) 0 (Body resp)) = Break"
    unfolding assms(4) using assms(5-7) by (rule stream_clean_end)
  obtain st' dl1 where run: "run_effects (fst (startDownload pf env i url)) st = Some st'"
    and d: "downloads st' =
        (downloads st)(i \<mapsto>
           (if snd (stream pf i (ContentLength resp) 0 (Body resp)) = Break
            then dl1\<lparr>Status := ''completed''\<rparr> else dl1))"
    and f: "files st' =
        (if snd (stream pf i (ContentLength resp) 0 (Body resp)) = Break \<and> rename_ok env
         then (files (opened pf env resp i url dl st))
                (tempPath pf url := StatNotExist, finalPath pf url (ContentType resp) := StatOk)
         else files (opened pf env resp i url dl st))"
    and path: "Filepath dl1 = finalPath pf url (ContentType resp)"
    using worker_result [OF assms(1-3), of pf url] by blast
  have here: "downloads st' i = Some (dl1\<lparr>Status := ''completed''\<rparr>)"
    by (simp add: d brk)
  have ret: "snd (startDownload pf env i url)"
    by (simp add: startDownload_response [OF assms(1,2)] brk)
  have fs: "files st' =
             (let created = (if mkdir_ok env
                             then (files st)(categoryDir pf url (ContentType resp) := StatOk)
                             else files st)(tempPath pf url := StatOk)
              in if rename_ok env
                 then created(tempPath pf url := StatNotExist,
                              finalPath pf url (ContentType resp) := StatOk)
                 else created)"
    unfolding f brk by (simp add: opened_def Let_def)
  have "Status (dl1\<lparr>Status := ''completed''\<rparr>) = ''completed''"
    "Filepath (dl1\<lparr>Status := ''completed''\<rparr>) = finalPath pf url (ContentType resp)"
    using path by simp_all
  then show ?thesis using run ret here fs by blast
qed

theorem completed_whatever_rename_does_witness:
  "http_Get (answered three_bytes False) = GetResponse three_bytes \<and>
   create_ok (answered three_bytes False) \<and> \<not> rename_ok (answered three_bytes False) \<and>
   downloads started ''7'' = Some (new_download ''7'' ''http://x/a.zip'') \<and>
   Body three_bytes = [sample_read 2 NoError] @ sample_read 1 EOF # [] \<and>
   (\<exists>st' dl'. run_effects (fst (startDownload sample_platform (answered three_bytes False) ''7''
                   ''http://x/a.zip'')) started = Some st' \<and>
      downloads st' ''7'' = Some dl' \<and> Status dl' = ''completed'' \<and>
      Filepath dl' = ''/d/compressed/a.zip'' \<and>
      files st' ''/d/compressed/a.zip'' = StatNotExist)"
proof -
  have g: "http_Get (answered three_bytes False) = GetResponse three_bytes"
    and c: "create_ok (answered three_bytes False)"
    and n: "\<not> rename_ok (answered three_bytes False)"
    and m: "mkdir_ok (answered three_bytes False)"
    by (simp_all add: answered_def)
  have d: "downloads started ''7'' = Some (new_download ''7'' ''http://x/a.zip'')"
    by (simp add: started_def)
  have b: "Body three_bytes = [sample_read 2 NoError] @ sample_read 1 EOF # []"
    by (simp add: three_bytes_def)
  have clean: "\<forall>x\<in>set [sample_read 2 NoError]. read_err x = NoError \<and> (0 < read_n x \<longrightarrow> write_ok x)"
    and last: "read_err (sample_read 1 EOF) = EOF"
      "0 < read_n (sample_read 1 EOF) \<longrightarrow> write_ok (sample_read 1 EOF)"
    by (simp_all add: sample_read_def)
  have r: "ContentType three_bytes = []" by (simp add: three_bytes_def)
  obtain st' dl' where run: "run_effects (fst (startDownload sample_platform
        (answered three_bytes False) ''7'' ''http://x/a.zip'')) started = Some st'"
    and rec: "downloads st' ''7'' = Some dl'" "Status dl' = ''completed''"
      "Filepath dl' = ''/d/compressed/a.zip''"
    and fs: "files st' = ((files started)(''/d/compressed'' := StatOk))
                (''/d/temp/a.zip.goloadtemp'' := StatOk)"
    using completed_whatever_rename_does [OF g c d b clean last,
        of sample_platform "''http://x/a.zip''"]
    unfolding r sample_paths Let_def using n m by auto
  have "files st' ''/d/compressed/a.zip'' = StatNotExist"
    by (simp add: fs started_def no_files_def)
  then have "\<exists>st' dl'. run_effects (fst (startDownload sample_platform (answered three_bytes False) ''7''
                   ''http://x/a.zip'')) started = Some st' \<and>
      downloads st' ''7'' = Some dl' \<and> Status dl' = ''completed'' \<and>
      Filepath dl' = ''/d/compressed/a.zip'' \<and>
      files st' ''/d/compressed/a.zip'' = StatNotExist"
    using run rec by blast
  then show ?thesis using g c n d b by (simp only: simp_thms)
qed


text \<open>
  C7. Let the declared total be positive and the body be read to its end, with every
  write succeeding, in reads of \<open>N\<close> bytes altogether, \<open>N\<close> a number an \<^verbatim>\<open>int64\<close> holds.
  Then the goroutine, run on a table whose record has size 0 (as \<^verbatim>\<open>addDownload\<close> creates
  it), leaves the record with \<^verbatim>\<open>size_current\<close> equal to \<open>N\<close> and status \<^verbatim>\<open>completed\<close>, and,
  if \<open>N\<close> is the declared total, with progress exactly 100.
\<close>

theorem read_to_end_publishes_size:
  assumes "http_Get env = GetResponse resp" and "create_ok env"
    and "downloads st i = Some dl" and "SizeCurrent dl = 0"
    and "Body resp = rs @ r # rest"
    and "\<forall>x\<in>set rs. read_err x = NoError \<and> (0 < read_n x \<longrightarrow> write_ok x)"
    and "read_err r = EOF" and "0 < read_n r \<longrightarrow> write_ok r"
    and "N = (\<Sum>x\<leftarrow>rs @ [r]. int (read_n x))" and "N < 2 ^ 63"
    and "0 < ContentLength resp"
  shows "\<exists>st' dl'. run_effects (fst (startDownload pf env i url)) st = Some st' \<and>
           downloads st' i = Some dl' \<and>
           SizeCurrent dl' = N \<and>
           Status dl' = ''completed'' \<and>
           (N = ContentLength resp \<longrightarrow> Progress dl' = Number False 100)"
proof -
  let ?st0 = "opened pf env resp i url dl st"
  let ?dl0 = "dl\<lparr>Filename := getFilename pf url,
           Filepath := finalPath pf url (ContentType resp),
           SizeTotal := ContentLength resp\<rparr>"
  let ?t = "ContentLength resp"
  have brk: "snd (stream pf i ?t 0 (Body resp)) = Break"
    unfolding assms(5) using assms(6-8) by (rule stream_clean_end)
  obtain st' dl1 where loop: "run_effects (fst (stream pf i ?t 0 (Body resp))) ?st0 =
        Some (?st0\<lparr>downloads := (downloads ?st0)(i \<mapsto> dl1)\<rparr>)"
    and run: "run_effects (fst (startDownload pf env i url)) st = Some st'"
    and d: "downloads st' =
        (downloads st)(i \<mapsto>
           (if snd (stream pf i ?t 0 (Body resp)) = Break
            then dl1\<lparr>Status := ''completed''\<rparr> else dl1))"
    using worker_result [OF assms(1-3), of pf url] by blast
  have st0: "downloads ?st0 i = Some ?dl0" by (simp add: opened_def)
  have fits: "(0::int) + (\<Sum>x\<leftarrow>rs @ [r]. int (read_n x)) < 2 ^ 63"
    using assms(9,10) by simp
  obtain dl2 where loop2: "run_effects (fst (stream pf i ?t 0 (rs @ r # rest))) ?st0 =
        Some (?st0\<lparr>downloads := (downloads ?st0)(i \<mapsto> dl2)\<rparr>)"
    and size: "if (\<Sum>x\<leftarrow>rs @ [r]. int (read_n x)) = 0
        then SizeCurrent dl2 = SizeCurrent ?dl0 \<and> Progress dl2 = Progress ?dl0
        else SizeCurrent dl2 = 0 + (\<Sum>x\<leftarrow>rs @ [r]. int (read_n x)) \<and>
             Progress dl2 =
               f64_mul (f64_div (float64_of_int64 (0 + (\<Sum>x\<leftarrow>rs @ [r]. int (read_n x))))
                          (float64_of_int64 ?t)) (Number False 100)"
    using stream_clean_size [OF assms(6-8) order_refl fits st0, of pf ?t rest] by blast
  have "?st0\<lparr>downloads := (downloads ?st0)(i \<mapsto> dl2)\<rparr> =
        ?st0\<lparr>downloads := (downloads ?st0)(i \<mapsto> dl1)\<rparr>"
    using loop loop2 unfolding assms(5) by (metis option.inject)
  then have "dl2 = dl1" by (rule record_at_inj)
  then have size1: "if N = 0
        then SizeCurrent dl1 = 0 \<and> Progress dl1 = Progress dl
        else SizeCurrent dl1 = N \<and>
             Progress dl1 = f64_mul (f64_div (float64_of_int64 N) (float64_of_int64 ?t))
                              (Number False 100)"
    using size assms(4) unfolding assms(9) by (simp split: if_splits)
  have sz: "SizeCurrent dl1 = N" using size1 by (simp split: if_splits)
  have pr: "Progress dl1 = Number False 100" if "N = ?t"
  proof -
    have "N \<noteq> 0" using that assms(11) by simp
    then have "Progress dl1 = f64_mul (f64_div (float64_of_int64 N) (float64_of_int64 N))
                              (Number False 100)"
      using size1 that by simp
    moreover have "0 < N" using that assms(11) by simp
    ultimately show ?thesis using progress_complete [OF _ assms(10)] by simp
  qed
  have here: "downloads st' i = Some (dl1\<lparr>Status := ''completed''\<rparr>)"
    by (simp add: d brk)
  have "SizeCurrent (dl1\<lparr>Status := ''completed''\<rparr>) = N"
    "Status (dl1\<lparr>Status := ''completed''\<rparr>) = ''completed''"
    "N = ?t \<longrightarrow> Progress (dl1\<lparr>Status := ''completed''\<rparr>) = Number False 100"
    using sz pr by simp_all
  then show ?thesis using run here by blast
qed

theorem read_to_end_publishes_size_witness:
  "http_Get (answered three_bytes True) = GetResponse three_bytes \<and>
   create_ok (answered three_bytes True) \<and>
   downloads started ''7'' = Some (new_download ''7'' ''http://x/a.zip'') \<and>
   SizeCurrent (new_download ''7'' ''http://x/a.zip'') = 0 \<and>
   Body three_bytes = [sample_read 2 NoError] @ sample_read 1 EOF # [] \<and>
   (3::int) = (\<Sum>x\<leftarrow>[sample_read 2 NoError] @ [sample_read 1 EOF]. int (read_n x)) \<and>
   0 < ContentLength three_bytes \<and> 3 = ContentLength three_bytes \<and>
   (\<exists>st' dl'. run_effects (fst (startDownload sample_platform (answered three_bytes True) ''7''
                   ''http://x/a.zip'')) started = Some st' \<and>
      downloads st' ''7'' = Some dl' \<and> SizeCurrent dl' = 3 \<and> Status dl' = ''completed'' \<and>
      Progress dl' = Number False 100)"
proof -
  have g: "http_Get (answered three_bytes True) = GetResponse three_bytes"
    and c: "create_ok (answered three_bytes True)"
    by (simp_all add: answered_def)
  have d: "downloads started ''7'' = Some (new_download ''7'' ''http://x/a.zip'')"
    by (simp add: started_def)
  have z: "SizeCurrent (new_download ''7'' ''http://x/a.zip'') = 0"
    by (simp add: new_download_def)
  have b: "Body three_bytes = [sample_read 2 NoError] @ sample_read 1 EOF # []"
    by (simp add: three_bytes_def)
  have clean: "\<forall>x\<in>set [sample_read 2 NoError]. read_err x = NoError \<and> (0 < read_n x \<longrightarrow> write_ok x)"
    and last: "read_err (sample_read 1 EOF) = EOF"
      "0 < read_n (sample_read 1 EOF) \<longrightarrow> write_ok (sample_read 1 EOF)"
    by (simp_all add: sample_read_def)
  have n: "(3::int) = (\<Sum>x\<leftarrow>[sample_read 2 NoError] @ [sample_read 1 EOF]. int (read_n x))"
    by (simp add: sample_read_def)
  have fits: "(3::int) < 2 ^ 63" by simp
  have t: "0 < ContentLength three_bytes" and e: "3 = ContentLength three_bytes"
    by (simp_all add: three_bytes_def)
  from read_to_end_publishes_size [OF g c d z b clean last n fits t,
      of sample_platform "''http://x/a.zip''"] e
  have "\<exists>st' dl'. run_effects (fst (startDownload sample_platform (answered three_bytes True) ''7''
                   ''http://x/a.zip'')) started = Some st' \<and>
      downloads st' ''7'' = Some dl' \<and> SizeCurrent dl' = 3 \<and> Status dl' = ''completed'' \<and>
      Progress dl' = Number False 100"
    by blast
  then show ?thesis using g c d z b n t e by (simp only: simp_thms)
qed

subsection \<open>Progress when the total is unknown\<close>

text \<open>
  C5 does not hold of the code. Line 137 divides by \<^verbatim>\<open>sizeTotal\<close> in every iteration that
  read bytes, whatever its value, and line 141 publishes the result. For a response that
  declares no length the total is -1, and after five bytes the progress published is
  -500: a negative number, neither the previous value nor 0.
\<close>

theorem progress_negative_without_length:
  "declared_length no_length = None \<and> ContentLength no_length \<le> 0 \<and>
   Progress (new_download ''7'' ''http://x/a.zip'') = Number False 0 \<and>
   map_option (\<lambda>st. map_option Progress (downloads st ''7''))
     (run_effects (fst (startDownload sample_platform (answered no_length True) ''7''
        ''http://x/a.zip'')) started) = Some (Some (Number True 500)) \<and>
   f64_negative (Number True 500)"
proof -
  have "map_option (\<lambda>st. map_option Progress (downloads st ''7''))
     (run_effects (fst (startDownload sample_platform (answered no_length True) ''7''
        ''http://x/a.zip'')) started) = Some (Some (Number True 500))"
    using no_length_record [of True]
    by (cases "run_effects (fst (startDownload sample_platform (answered no_length True) ''7''
        ''http://x/a.zip'')) started") auto
  then show ?thesis
    by (simp add: declared_length_def no_length_def new_download_def)
qed


subsection \<open>The status of a record\<close>

text \<open>
  C8, as the claim states it, fails when a clock reading repeats: line 80 stores the new
  record under the reading of line 78 whatever the table holds under that key. Two
  submissions at the reading 7 share the record of the second. The goroutine of the
  first, whose host cannot be reached, makes it \<^verbatim>\<open>failed\<close>; the goroutine of the second,
  which was answered, then makes the same record \<^verbatim>\<open>completed\<close>. And a submission at the
  reading 7 when the record under that key is \<^verbatim>\<open>failed\<close> puts a record that is
  \<^verbatim>\<open>in_progress\<close> in its place.
\<close>

theorem status_changes_again_counterexample:
  "run sample_platform same_reading (initial no_files) = Some shared_failed \<and>
   \<not> new_ids sample_platform same_reading (initial no_files) \<and>
   map_option Status (downloads shared_failed ''7'') = Some ''failed'' \<and>
   (\<exists>s'. step sample_platform (Advance 1) shared_failed = Some s' \<and>
         map_option Status (downloads s' ''7'') = Some ''completed'') \<and>
   run sample_platform [Insert 7 ''http://x/a.zip'' unreachable, Advance 0] (initial no_files) =
     Some one_failed \<and>
   map_option Status (downloads one_failed ''7'') = Some ''failed'' \<and>
   \<not> new_id (Insert 7 ''http://x/b'' unreachable) one_failed \<and>
   (\<exists>s'. step sample_platform (Insert 7 ''http://x/b'' unreachable) one_failed = Some s' \<and>
         map_option Status (downloads s' ''7'') = Some ''in_progress'')"
proof -
  have a: "map_option Status (downloads shared_failed ''7'') = Some ''failed''"
    by (simp add: shared_failed_def)
  have b: "\<exists>s'. step sample_platform (Advance 1) shared_failed = Some s' \<and>
         map_option Status (downloads s' ''7'') = Some ''completed''"
    by (simp add: shared_failed_def updateStatus_def)
  have c: "run sample_platform [Insert 7 ''http://x/a.zip'' unreachable, Advance 0]
             (initial no_files) = Some one_failed"
    by (simp add: Sprintf_d_7 initial_def unreachable_effects one_failed_def Let_def
          updateStatus_def)
  have d: "map_option Status (downloads one_failed ''7'') = Some ''failed''"
    by (simp add: one_failed_def)
  have e: "\<not> new_id (Insert 7 ''http://x/b'' unreachable) one_failed"
    by (simp add: Sprintf_d_7 one_failed_def)
  have f: "\<exists>s'. step sample_platform (Insert 7 ''http://x/b'' unreachable) one_failed = Some s' \<and>
         map_option Status (downloads s' ''7'') = Some ''in_progress''"
    by (simp add: Sprintf_d_7 Let_def new_download_def)
  show ?thesis
    using same_reading_run same_reading_old_id a b c d e f by (simp only: simp_thms)
qed

text \<open>
  C8, amended. Let every submission draw a new id: the string that the clock reading of
  line 78 gives is not a key of the table when line 80 stores the record. In a program
  that has run so, every \<^verbatim>\<open>range\<close> loop visiting each key once, take any block \<open>ev\<close> that
  the program runs next, by a handler or by a goroutine, a submission with a new id
  included, and any key \<open>i\<close>. A record under \<open>i\<close> has one of the three statuses, and after
  the block it is gone, or still there with the status it had, or it was \<^verbatim>\<open>in_progress\<close>
  and is now \<^verbatim>\<open>completed\<close> or \<^verbatim>\<open>failed\<close>. So a record that is \<^verbatim>\<open>completed\<close> or \<^verbatim>\<open>failed\<close> keeps
  its status until it is deleted, and the status of a record changes at most once. A
  record that appears under a key that had none is \<^verbatim>\<open>in_progress\<close>.
\<close>

theorem status_moves_forward_once:
  assumes "run pf evs (initial fs) = Some s" and "new_ids pf evs (initial fs)"
    and "step pf ev s = Some s'" and "new_id ev s"
  shows "(\<forall>dl. downloads s i = Some dl \<longrightarrow>
            (Status dl = ''in_progress'' \<or> Status dl = ''completed'' \<or> Status dl = ''failed'') \<and>
            (downloads s' i = None \<or>
             (\<exists>dl'. downloads s' i = Some dl' \<and>
                (Status dl' = Status dl \<or>
                 Status dl = ''in_progress'' \<and>
                 (Status dl' = ''completed'' \<or> Status dl' = ''failed''))))) \<and>
         (downloads s i = None \<longrightarrow>
            downloads s' i = None \<or>
            (\<exists>dl'. downloads s' i = Some dl' \<and> Status dl' = ''in_progress''))"
proof -
  have inv: "invariant s"
    using invariant_initial assms(1,2) by (rule invariant_run)
  show ?thesis
    using step_status [OF inv assms(3,4), of i] invariant_status [OF inv, of i] by blast
qed

theorem status_moves_forward_once_witness:
  "run sample_platform [Insert 7 ''http://x/a.zip'' unreachable] (initial no_files) =
     Some one_running \<and>
   new_ids sample_platform [Insert 7 ''http://x/a.zip'' unreachable] (initial no_files) \<and>
   step sample_platform (Advance 0) one_running = Some one_failed \<and>
   new_id (Advance 0) one_running \<and>
   downloads one_running ''7'' = Some (new_download ''7'' ''http://x/a.zip'') \<and>
   Status (new_download ''7'' ''http://x/a.zip'') = ''in_progress'' \<and>
   (\<exists>dl'. downloads one_failed ''7'' = Some dl' \<and> Status dl' = ''failed'')"
proof -
  have n: "new_ids sample_platform [Insert 7 ''http://x/a.zip'' unreachable] (initial no_files)"
    by (simp add: Sprintf_d_7 initial_def Let_def)
  have m: "new_id (Advance 0) one_running" by simp
  have d: "downloads one_running ''7'' = Some (new_download ''7'' ''http://x/a.zip'')"
    by (simp add: one_running_def)
  have p: "Status (new_download ''7'' ''http://x/a.zip'') = ''in_progress''"
    by (simp add: new_download_def)
  have there: "downloads one_failed ''7'' \<noteq> None"
    and notc: "\<And>dl'. downloads one_failed ''7'' = Some dl' \<Longrightarrow> Status dl' \<noteq> ''in_progress'' \<and> Status dl' \<noteq> ''completed''"
    by (simp_all add: one_failed_def)
  from status_moves_forward_once [OF one_running_run n one_failed_step m, of "''7''"] d p
  have "downloads one_failed ''7'' = None \<or>
        (\<exists>dl'. downloads one_failed ''7'' = Some dl' \<and>
           (Status dl' = ''in_progress'' \<or> Status dl' = ''completed'' \<or> Status dl' = ''failed''))"
    by (metis)
  then have "\<exists>dl'. downloads one_failed ''7'' = Some dl' \<and> Status dl' = ''failed''"
    using there notc by blast
  then show ?thesis
    using one_running_run n one_failed_step m d p by (simp only: simp_thms)
qed

end
